theory Spec2Isabelle
  imports Main "HOL-Library.Sublist" "HOL-Library.Char_ord" "HOL-Library.List_Lexorder"
begin

section \<open>Errors\<close>

text \<open>
  The exceptions of \<^verbatim>\<open>git_glulx_ml.py\<close> as values. \<open>ValueError\<close> is what
  \<^verbatim>\<open>list.remove\<close> and \<^verbatim>\<open>int\<close> raise, \<open>AssertionError\<close> what a failed
  \<^verbatim>\<open>assert\<close> raises, \<open>AttributeError\<close> what reading an attribute that was never
  assigned raises. The three \<^verbatim>\<open>NameError\<close> subclasses of the module carry the name of
  the property that was accessed.
\<close>

datatype error =
    ValueError
  | AssertionError
  | AttributeError string
  | StateTrackingIsRequiredError string
  | OraclePolicyIsRequiredError string
  | ExtraInfosIsMissingError string
  | GameNotRunningError

section \<open>Python string primitives\<close>

text \<open>
  Strings are lists of characters; a character stands for a code point below 256.
  \<open>isspace\<close> is Python's \<^verbatim>\<open>str.isspace\<close> on these code points.
\<close>

definition ESC :: char where
  "ESC = CHR 0x1B"

definition NL :: char where
  "NL = CHR 0x0A"

definition isspace :: "char \<Rightarrow> bool" where
  "isspace c = (c \<in> {CHR 0x09, CHR 0x0A, CHR 0x0B, CHR 0x0C, CHR 0x0D,
                       CHR 0x1C, CHR 0x1D, CHR 0x1E, CHR 0x1F, CHR 0x20, CHR 0x85, CHR 0xA0})"

text \<open>\<^verbatim>\<open>s.strip()\<close>: whitespace removed at both ends.\<close>

definition strip :: "string \<Rightarrow> string" where
  "strip s = rev (dropWhile isspace (rev (dropWhile isspace s)))"

text \<open>\<^verbatim>\<open>s.find(sub)\<close>: the index of the first occurrence, \<open>None\<close> for Python's -1.\<close>

fun find_sub :: "string \<Rightarrow> string \<Rightarrow> nat option" where
  "find_sub sub [] = (if sub = [] then Some 0 else None)"
| "find_sub sub (c # cs) =
     (if prefix sub (c # cs) then Some 0 else map_option Suc (find_sub sub cs))"

text \<open>\<^verbatim>\<open>sub in s\<close>.\<close>

definition contains :: "string \<Rightarrow> string \<Rightarrow> bool" where
  "contains sub s = (find_sub sub s \<noteq> None)"

text \<open>\<^verbatim>\<open>s.endswith(suffix)\<close>.\<close>

definition endswith :: "string \<Rightarrow> string \<Rightarrow> bool" where
  "endswith s suf = suffix suf s"

text \<open>
  \<^verbatim>\<open>text.replace(old, new)\<close>: every occurrence of \<open>old\<close>, found left to right without
  overlap, is replaced by \<open>new\<close>. For an empty \<open>old\<close> Python puts \<open>new\<close> before every
  character and at the end.
\<close>

function replace_from :: "string \<Rightarrow> string \<Rightarrow> string \<Rightarrow> string" where
  "replace_from old new [] = []"
| "replace_from old new (c # cs) =
     (if old \<noteq> [] \<and> prefix old (c # cs)
      then new @ replace_from old new (drop (length old) (c # cs))
      else c # replace_from old new cs)"
  by pat_completeness auto
termination
  by (relation "measure (\<lambda>(old, new, s). length s)") (auto simp: neq_Nil_conv)

definition replace :: "string \<Rightarrow> string \<Rightarrow> string \<Rightarrow> string" where
  "replace text old new =
     (if old = [] then new @ concat (map (\<lambda>c. c # new) text)
      else replace_from old new text)"

text \<open>
  \<^verbatim>\<open>int(s)\<close> for a string: whitespace around the number is dropped (the characters that
  \<^verbatim>\<open>int\<close> accepts there, among the code points below 256), then an optional sign and
  decimal digits, single underscores allowed between digits; anything else is a
  \<^verbatim>\<open>ValueError\<close>.
\<close>

definition int_space :: "char \<Rightarrow> bool" where
  "int_space c = (c \<in> {CHR 0x09, CHR 0x0A, CHR 0x0B, CHR 0x0C, CHR 0x0D, CHR 0x20,
                         CHR 0x85, CHR 0xA0})"

definition is_digit :: "char \<Rightarrow> bool" where
  "is_digit c = (CHR ''0'' \<le> c \<and> c \<le> CHR ''9'')"

definition digit_value :: "char \<Rightarrow> int" where
  "digit_value c = int (of_char c) - 48"

fun digits :: "int \<Rightarrow> string \<Rightarrow> int option" where
  "digits acc [] = None"
| "digits acc (c # cs) =
     (if \<not> is_digit c then None
      else (case cs of
              [] \<Rightarrow> Some (10 * acc + digit_value c)
            | d # ds \<Rightarrow>
                if d = CHR ''_'' then digits (10 * acc + digit_value c) ds
                else digits (10 * acc + digit_value c) cs))"

definition py_int :: "string \<Rightarrow> error + int" where
  "py_int s =
     (let t = rev (dropWhile int_space (rev (dropWhile int_space s)));
          r = (case t of
                 [] \<Rightarrow> None
               | c # cs \<Rightarrow>
                   if c = CHR ''+'' then digits 0 cs
                   else if c = CHR ''-'' then map_option uminus (digits 0 cs)
                   else digits 0 t)
      in (case r of None \<Rightarrow> Inl ValueError | Some n \<Rightarrow> Inr n))"

section \<open>The event-tag scanner\<close>

text \<open>
  The regular expression \<^verbatim>\<open>(?<!\x1b)\[[^]]+\]\n?\<close> of
  \<^verbatim>\<open>_detect_i7_events_debug_tags\<close>. \<open>match_tag\<close> is the part after the look-behind,
  anchored at the head of its argument: an opening bracket, one or more characters other
  than a closing bracket (greedy, and newlines count), a closing bracket, and a newline
  when one follows. It returns the matched text and what follows it.
\<close>

fun match_tag :: "string \<Rightarrow> (string \<times> string) option" where
  "match_tag [] = None"
| "match_tag (c # cs) =
     (if c \<noteq> CHR ''['' then None
      else let body = takeWhile (\<lambda>x. x \<noteq> CHR '']'') cs;
               rest = dropWhile (\<lambda>x. x \<noteq> CHR '']'') cs
           in if body = [] \<or> rest = [] then None
              else (case tl rest of
                      [] \<Rightarrow> Some (c # body @ [CHR '']''], [])
                    | d # ds \<Rightarrow>
                        if d = NL then Some (c # body @ [CHR '']'', NL], ds)
                        else Some (c # body @ [CHR '']''], d # ds)))"

lemma match_tag_splits:
  "match_tag s = Some (m, rest) \<Longrightarrow> s = m @ rest \<and> m \<noteq> []"
proof (cases s)
  case Nil
  then show "match_tag s = Some (m, rest) \<Longrightarrow> s = m @ rest \<and> m \<noteq> []" by simp
next
  case (Cons c cs)
  assume a: "match_tag s = Some (m, rest)"
  let ?p = "\<lambda>x. x \<noteq> CHR '']''"
  from a Cons have c: "c = CHR ''[''" and d: "dropWhile ?p cs \<noteq> []"
    by (auto simp: Let_def split: if_splits)
  have "hd (dropWhile ?p cs) = CHR '']''"
    using d hd_dropWhile [of ?p cs] by simp
  then have e: "dropWhile ?p cs = CHR '']'' # tl (dropWhile ?p cs)"
    using d by (cases "dropWhile ?p cs") auto
  have f: "cs = takeWhile ?p cs @ CHR '']'' # tl (dropWhile ?p cs)"
    using takeWhile_dropWhile_id [of ?p cs] e by simp
  show "s = m @ rest \<and> m \<noteq> []"
  proof (cases "tl (dropWhile ?p cs)")
    case Nil
    with a Cons c d f show ?thesis
      by (auto simp: Let_def split: if_splits)
  next
    case (Cons d' ds)
    with a \<open>s = c # cs\<close> c d f show ?thesis
      by (auto simp: Let_def split: if_splits)
  qed
qed

text \<open>
  \<^verbatim>\<open>re.findall\<close>: the matches, left to right and without overlap. The first argument
  is the character before the position scanned (\<open>None\<close> at the start of the text), for the
  look-behind \<^verbatim>\<open>(?<!\x1b)\<close>; after a match the scan goes on behind it.
\<close>

function findall_tags :: "char option \<Rightarrow> string \<Rightarrow> string list" where
  "findall_tags prev [] = []"
| "findall_tags prev (c # cs) =
     (if prev = Some ESC then findall_tags (Some c) cs
      else (case match_tag (c # cs) of
              Some (m, rest) \<Rightarrow> m # findall_tags (Some (last m)) rest
            | None \<Rightarrow> findall_tags (Some c) cs))"
  by pat_completeness auto
termination
proof (relation "measure (\<lambda>(prev, s). length s)")
  show "wf (measure (\<lambda>(prev, s). length s))" by simp
next
  fix prev :: "char option" and c :: char and cs :: string
  show "((Some c, cs), prev, c # cs) \<in> measure (\<lambda>(prev, s). length s)" by simp
next
  fix prev :: "char option" and c :: char and cs :: string
  show "((Some c, cs), prev, c # cs) \<in> measure (\<lambda>(prev, s). length s)" by simp
next
  fix prev :: "char option" and c :: char and cs x2 x y :: string and xa :: "string \<times> string"
  assume "match_tag (c # cs) = Some xa" and "(x, y) = xa"
  then have "match_tag (c # cs) = Some (x, y)" by simp
  from match_tag_splits [OF this] have "length y < length (c # cs)"
    by (metis length_append length_greater_0_conv less_add_same_cancel2 add.commute)
  then show "((Some (last x), y), prev, c # cs) \<in> measure (\<lambda>(prev, s). length s)" by simp
qed

text \<open>\<^verbatim>\<open>xs.remove(x)\<close>: the first occurrence goes, \<^verbatim>\<open>ValueError\<close> when there is none.\<close>

definition list_remove :: "'a \<Rightarrow> 'a list \<Rightarrow> error + 'a list" where
  "list_remove x xs = (if x \<in> set xs then Inr (remove1 x xs) else Inl ValueError)"

text \<open>
  The body of the loop of \<^verbatim>\<open>_detect_i7_events_debug_tags\<close> for one match, on the
  variables \<open>(matches, open_tags, text)\<close>. \<^verbatim>\<open>match.strip()[1:-1]\<close> is
  \<open>butlast (tl (strip m))\<close>; \<^verbatim>\<open>tag_name[:tag_name.index(s)]\<close> is \<open>take i tag_name\<close>
  for the index \<open>i\<close> that \<open>find_sub\<close> returns.
\<close>

type_synonym scan_state = "string list \<times> string list \<times> string"

definition scan_step :: "string \<Rightarrow> scan_state \<Rightarrow> error + scan_state" where
  "scan_step m st =
     (case st of (matches, open_tags, text) \<Rightarrow>
        let text = replace text m [];
            tag_name = butlast (tl (strip m))
        in (case find_sub '' - failed'' tag_name of
              Some i \<Rightarrow>
                (case list_remove (take i tag_name) open_tags of
                   Inl e \<Rightarrow> Inl e
                 | Inr open_tags' \<Rightarrow> Inr (matches, open_tags', text))
            | None \<Rightarrow>
                (case find_sub '' - succeeded'' tag_name of
                   Some i \<Rightarrow>
                     (case list_remove (take i tag_name) open_tags of
                        Inl e \<Rightarrow> Inl e
                      | Inr open_tags' \<Rightarrow> Inr (matches @ [take i tag_name], open_tags', text))
                 | None \<Rightarrow> Inr (matches, open_tags @ [tag_name], text))))"

fun scan_loop :: "string list \<Rightarrow> scan_state \<Rightarrow> error + scan_state" where
  "scan_loop [] st = Inr st"
| "scan_loop (m # ms) st =
     (case scan_step m st of Inl e \<Rightarrow> Inl e | Inr st' \<Rightarrow> scan_loop ms st')"

text \<open>The filter of the list comprehension: neither parenthesis occurs in the name.\<close>

definition no_paren :: "string \<Rightarrow> bool" where
  "no_paren m = (CHR ''('' \<notin> set m \<and> CHR '')'' \<notin> set m)"

definition detect_i7_events_debug_tags :: "string \<Rightarrow> error + (string list \<times> string)" where
  "detect_i7_events_debug_tags text =
     (case scan_loop (findall_tags None text) ([], [], text) of
        Inl e \<Rightarrow> Inl e
      | Inr (matches, open_tags, text') \<Rightarrow>
          let matches = filter no_paren matches
          in if length matches > 0 \<and> length open_tags \<noteq> 0 then Inl AssertionError
             else Inr (matches, text'))"

definition strip_input_prompt_symbol :: "string \<Rightarrow> string" where
  "strip_input_prompt_symbol text =
     (if endswith text [NL, CHR ''>''] then take (length text - 2) text else text)"

section \<open>Side-channel blocks\<close>

text \<open>\<^verbatim>\<open>s.rfind(sub)\<close>: the index of the last occurrence.\<close>

fun rfind_sub :: "string \<Rightarrow> string \<Rightarrow> nat option" where
  "rfind_sub sub [] = (if sub = [] then Some 0 else None)"
| "rfind_sub sub (c # cs) =
     (case rfind_sub sub cs of
        Some i \<Rightarrow> Some (Suc i)
      | None \<Rightarrow> if prefix sub (c # cs) then Some 0 else None)"

definition open_tag :: "string \<Rightarrow> string" where
  "open_tag tag = ''<'' @ tag @ ''>'' @ [NL]"

definition close_tag :: "string \<Rightarrow> string" where
  "close_tag tag = ''</'' @ tag @ ''>''"

text \<open>
  \<^verbatim>\<open>re.search\<close> for \<^verbatim>\<open><tag>\n(.*)</tag>\<close> under \<^verbatim>\<open>re.DOTALL\<close>: the leftmost
  position where the opening tag and its newline stand and a closing tag follows; the
  group is greedy, so it runs to the last closing tag of the text. The result is the text
  before the match, group 1, and the text after the match.
\<close>

fun search_block :: "string \<Rightarrow> string \<Rightarrow> (string \<times> string \<times> string) option" where
  "search_block tag [] = None"
| "search_block tag (c # cs) =
     (let here =
        (if prefix (open_tag tag) (c # cs)
         then (let r = drop (length (open_tag tag)) (c # cs)
               in (case rfind_sub (close_tag tag) r of
                     Some k \<Rightarrow> Some ([], take k r, drop (k + length (close_tag tag)) r)
                   | None \<Rightarrow> None))
         else None)
      in (case here of
            Some res \<Rightarrow> Some res
          | None \<Rightarrow>
              (case search_block tag cs of
                 Some (p, g, r) \<Rightarrow> Some (c # p, g, r)
               | None \<Rightarrow> None)))"

lemma rfind_splits:
  "rfind_sub sub s = Some k \<Longrightarrow> s = take k s @ sub @ drop (k + length sub) s"
proof (induction s arbitrary: k)
  case Nil
  then show ?case by (simp split: if_splits)
next
  case (Cons c cs)
  show ?case
  proof (cases "rfind_sub sub cs")
    case None
    with Cons.prems have k: "k = 0" and p: "prefix sub (c # cs)"
      by (auto split: if_splits)
    from p obtain t where "c # cs = sub @ t" by (auto simp: prefix_def)
    with k show ?thesis by simp
  next
    case (Some i)
    with Cons.prems have k: "k = Suc i" by simp
    from Cons.IH [OF Some] k show ?thesis by simp
  qed
qed

lemma search_block_splits:
  "search_block tag s = Some (p, g, r) \<Longrightarrow> s = p @ open_tag tag @ g @ close_tag tag @ r"
proof (induction s arbitrary: p g r)
  case Nil
  then show ?case by simp
next
  case (Cons c cs)
  let ?r = "drop (length (open_tag tag)) (c # cs)"
  show ?case
  proof (cases "prefix (open_tag tag) (c # cs) \<and> rfind_sub (close_tag tag) ?r \<noteq> None")
    case True
    then obtain k where k: "rfind_sub (close_tag tag) ?r = Some k" by auto
    from True obtain t where t: "c # cs = open_tag tag @ t" by (auto simp: prefix_def)
    then have r: "?r = t" by simp
    from Cons.prems True k
    have res: "p = []" "g = take k ?r" "r = drop (k + length (close_tag tag)) ?r"
      by (simp_all add: Let_def)
    from rfind_splits [OF k] have "?r = g @ close_tag tag @ r"
      using res by simp
    with t r res show ?thesis by simp
  next
    case False
    with Cons.prems obtain p' where
      "search_block tag cs = Some (p', g, r)" and "p = c # p'"
      by (auto simp: Let_def split: option.splits if_splits)
    with Cons.IH [of p' g r] show ?thesis by simp
  qed
qed

lemma search_block_shorter:
  "search_block tag s = Some (p, g, r) \<Longrightarrow> length r < length s"
  using search_block_splits [of tag s p g r] by (simp add: open_tag_def)

text \<open>\<^verbatim>\<open>re.sub(regex, "", text)\<close>: every match, left to right, is deleted.\<close>

function sub_block :: "string \<Rightarrow> string \<Rightarrow> string" where
  "sub_block tag text =
     (case search_block tag text of
        None \<Rightarrow> text
      | Some (p, g, r) \<Rightarrow> p @ sub_block tag r)"
  by pat_completeness auto
termination
  by (relation "measure (\<lambda>(tag, s). length s)") (auto dest: search_block_shorter)

text \<open>
  The loop of \<^verbatim>\<open>_detect_extra_infos\<close> over the tags, on \<open>(matches, text)\<close>; the
  dictionary is a map.
\<close>

fun extra_infos_loop ::
  "string list \<Rightarrow> (string \<rightharpoonup> string) \<times> string \<Rightarrow> error + ((string \<rightharpoonup> string) \<times> string)" where
  "extra_infos_loop [] acc = Inr acc"
| "extra_infos_loop (tag # tags) acc =
     (case acc of (matches, text) \<Rightarrow>
        (case search_block tag text of
           None \<Rightarrow> extra_infos_loop tags (matches, text)
         | Some (p, g, r) \<Rightarrow>
             (case detect_i7_events_debug_tags g of
                Inl e \<Rightarrow> Inl e
              | Inr (evs, cleaned_text) \<Rightarrow>
                  extra_infos_loop tags (matches(tag \<mapsto> cleaned_text), sub_block tag text))))"

definition detect_extra_infos :: "string \<Rightarrow> error + ((string \<rightharpoonup> string) \<times> string)" where
  "detect_extra_infos text =
     extra_infos_loop [''description'', ''inventory'', ''score''] (Map.empty, text)"

section \<open>The game and its collaborators\<close>

text \<open>
  \<^verbatim>\<open>GameProgression\<close>, \<^verbatim>\<open>Game\<close> and \<^verbatim>\<open>Inform7Game\<close> belong to
  \<^verbatim>\<open>textworld.generator\<close>, outside the module. A tracker is the record of what the module
  reads from a \<^verbatim>\<open>GameProgression\<close>; whatever else the tracker holds is the extension of
  the record. A game carries, besides its quests and objective, the operations that are
  determined by it: \<^verbatim>\<open>GameProgression(game, track_quests=b)\<close>,
  \<^verbatim>\<open>GameProgression.update(action)\<close>, and the two methods of \<^verbatim>\<open>Inform7Game(game)\<close>.
  They are parameters: nothing is assumed about them.
\<close>

record 'a game_progression =
  valid_actions :: "'a list"
  completed :: bool
  failed :: bool
  progression_score :: int
  winning_policy :: "'a list option"
  progression_max_score :: int

type_synonym ('a, 'z) tracker = "('a, 'z) game_progression_scheme"

record ('a, 'q, 'z) game =
  quests :: "'q list"
  game_objective :: string
  new_progression :: "bool \<Rightarrow> ('a, 'z) tracker"
  progression_update :: "('a, 'z) tracker \<Rightarrow> 'a \<Rightarrow> ('a, 'z) tracker"
  gen_commands_from_actions :: "'a list \<Rightarrow> string list"
  detect_action :: "string \<Rightarrow> 'a list \<Rightarrow> 'a option"

section \<open>The turn snapshot\<close>

text \<open>
  An object of \<^verbatim>\<open>GlulxGameState\<close>. A field \<open>attr_x\<close> is the attribute \<^verbatim>\<open>_x\<close>. The
  attributes that the properties test with \<^verbatim>\<open>hasattr\<close> are options, \<open>None\<close> for an
  attribute that was never assigned; so are \<^verbatim>\<open>_extra_infos\<close>, \<^verbatim>\<open>_game\<close> and
  \<^verbatim>\<open>_game_progression\<close>, which \<^verbatim>\<open>init\<close> and \<^verbatim>\<open>update\<close> assign and \<^verbatim>\<open>view\<close> does
  not (\<^verbatim>\<open>_inform7\<close> is assigned and left out together with \<^verbatim>\<open>_game\<close>, and its methods are
  read from the game). \<open>attr_action\<close> is \<open>None\<close> both for a missing attribute and for the
  value \<^verbatim>\<open>None\<close>, which the property \<^verbatim>\<open>action\<close> does not tell apart. The attributes
  \<^verbatim>\<open>_state\<close>, \<^verbatim>\<open>_raw\<close> and \<^verbatim>\<open>_env\<close> are left out.

  The tracker is a value in the snapshot. In the source the snapshot returned by
  \<^verbatim>\<open>update\<close> shares the tracker object with the snapshot it was made from, and then
  feeds it the events; but \<^verbatim>\<open>update\<close> calls \<^verbatim>\<open>self.view()\<close> first, which reads, and
  thereby stores in the old snapshot, every property computed from the tracker, so the old
  snapshot answers from these stored values afterwards, as the value here does.
\<close>

record ('a, 'q, 'z) attrs =
  has_timeout :: bool
  attr_state_tracking :: bool
  attr_compute_intermediate_reward :: bool
  attr_max_score :: int
  attr_command :: "string option"
  attr_feedback :: string
  attr_nb_moves :: nat
  attr_objective :: string
  attr_action :: "'a option"
  attr_extra_infos :: "(string \<rightharpoonup> string) option"
  attr_game :: "('a, 'q, 'z) game option"
  attr_game_progression :: "('a, 'z) tracker option"
  attr_description :: "string option"
  attr_inventory :: "string option"
  attr_score :: "int option"
  attr_has_won :: "bool option"
  attr_has_lost :: "bool option"
  attr_policy_commands :: "string list option"
  attr_admissible_commands :: "string list option"

datatype ('a, 'q, 'z) snapshot =
  GlulxGameState (attrs: "('a, 'q, 'z) attrs") (previous_state: "('a, 'q, 'z) snapshot option")

text \<open>An assignment to attributes of the object.\<close>

definition assign ::
  "(('a, 'q, 'z) attrs \<Rightarrow> ('a, 'q, 'z) attrs) \<Rightarrow> ('a, 'q, 'z) snapshot \<Rightarrow> ('a, 'q, 'z) snapshot" where
  "assign f s = GlulxGameState (f (attrs s)) (previous_state s)"

text \<open>
  A property that stores what it computes returns its value and the object after the read;
  an exception is \<open>Inl\<close>, and leaves the method without an object.
\<close>

definition score :: "('a, 'q, 'z) snapshot \<Rightarrow> error + int \<times> ('a, 'q, 'z) snapshot" where
  "score s =
     (case attr_score (attrs s) of
        Some v \<Rightarrow> Inr (v, s)
      | None \<Rightarrow>
          if attr_state_tracking (attrs s) then
            (case attr_game_progression (attrs s) of
               None \<Rightarrow> Inl (AttributeError ''_game_progression'')
             | Some gp \<Rightarrow>
                 Inr (progression_score gp,
                      assign (\<lambda>a. a\<lparr>attr_score := Some (progression_score gp)\<rparr>) s))
          else
            (case attr_extra_infos (attrs s) of
               None \<Rightarrow> Inl (AttributeError ''_extra_infos'')
             | Some infos \<Rightarrow>
                 (case infos ''score'' of
                    None \<Rightarrow> Inl (ExtraInfosIsMissingError ''score'')
                  | Some v \<Rightarrow>
                      (case py_int v of
                         Inl e \<Rightarrow> Inl e
                       | Inr n \<Rightarrow> Inr (n, assign (\<lambda>a. a\<lparr>attr_score := Some n\<rparr>) s)))))"

definition has_won :: "('a, 'q, 'z) snapshot \<Rightarrow> error + bool \<times> ('a, 'q, 'z) snapshot" where
  "has_won s =
     (case attr_has_won (attrs s) of
        Some b \<Rightarrow> Inr (b, s)
      | None \<Rightarrow>
          if attr_compute_intermediate_reward (attrs s) then
            (case attr_game_progression (attrs s) of
               None \<Rightarrow> Inl (AttributeError ''_game_progression'')
             | Some gp \<Rightarrow>
                 Inr (completed gp, assign (\<lambda>a. a\<lparr>attr_has_won := Some (completed gp)\<rparr>) s))
          else
            (let b = contains ''*** The End ***'' (attr_feedback (attrs s))
             in Inr (b, assign (\<lambda>a. a\<lparr>attr_has_won := Some b\<rparr>) s)))"

definition has_lost :: "('a, 'q, 'z) snapshot \<Rightarrow> error + bool \<times> ('a, 'q, 'z) snapshot" where
  "has_lost s =
     (case attr_has_lost (attrs s) of
        Some b \<Rightarrow> Inr (b, s)
      | None \<Rightarrow>
          if attr_compute_intermediate_reward (attrs s) then
            (case attr_game_progression (attrs s) of
               None \<Rightarrow> Inl (AttributeError ''_game_progression'')
             | Some gp \<Rightarrow>
                 Inr (failed gp, assign (\<lambda>a. a\<lparr>attr_has_lost := Some (failed gp)\<rparr>) s))
          else
            (let b = contains ''*** You lost! ***'' (attr_feedback (attrs s))
             in Inr (b, assign (\<lambda>a. a\<lparr>attr_has_lost := Some b\<rparr>) s)))"

text \<open>
  \<^verbatim>\<open>game_ended\<close>: the operator is \<^verbatim>\<open>|\<close>, so both \<^verbatim>\<open>has_won\<close> and \<^verbatim>\<open>has_lost\<close> are
  read.
\<close>

definition game_ended :: "('a, 'q, 'z) snapshot \<Rightarrow> error + bool \<times> ('a, 'q, 'z) snapshot" where
  "game_ended s =
     (case has_won s of
        Inl e \<Rightarrow> Inl e
      | Inr (won, s1) \<Rightarrow>
          (case has_lost s1 of
             Inl e \<Rightarrow> Inl e
           | Inr (lost, s2) \<Rightarrow> Inr (won \<or> lost \<or> has_timeout (attrs s2), s2)))"

definition policy_commands ::
  "('a, 'q, 'z) snapshot \<Rightarrow> error + string list \<times> ('a, 'q, 'z) snapshot" where
  "policy_commands s =
     (case attr_policy_commands (attrs s) of
        Some c \<Rightarrow> Inr (c, s)
      | None \<Rightarrow>
          if \<not> attr_compute_intermediate_reward (attrs s)
          then Inl (OraclePolicyIsRequiredError ''policy_commands'')
          else
            (case attr_game_progression (attrs s) of
               None \<Rightarrow> Inl (AttributeError ''_game_progression'')
             | Some gp \<Rightarrow>
                 (case winning_policy gp of
                    None \<Rightarrow> Inr ([], assign (\<lambda>a. a\<lparr>attr_policy_commands := Some []\<rparr>) s)
                  | Some policy \<Rightarrow>
                      (case attr_game (attrs s) of
                         None \<Rightarrow> Inl (AttributeError ''_inform7'')
                       | Some g \<Rightarrow>
                           (let c = gen_commands_from_actions g policy
                            in Inr (c, assign (\<lambda>a. a\<lparr>attr_policy_commands := Some c\<rparr>) s))))))"

text \<open>
  \<^verbatim>\<open>sorted(set(all_valid_commands))\<close> is the sorted list of the distinct commands; Python
  orders strings as lists of code points, the order of \<open>List_Lexorder\<close> over \<open>Char_ord\<close>.
\<close>

definition admissible_commands ::
  "('a, 'q, 'z) snapshot \<Rightarrow> error + string list \<times> ('a, 'q, 'z) snapshot" where
  "admissible_commands s =
     (case attr_admissible_commands (attrs s) of
        Some c \<Rightarrow> Inr (c, s)
      | None \<Rightarrow>
          if \<not> attr_state_tracking (attrs s)
          then Inl (StateTrackingIsRequiredError ''admissible_commands'')
          else
            (case attr_game (attrs s) of
               None \<Rightarrow> Inl (AttributeError ''_inform7'')
             | Some g \<Rightarrow>
                 (case attr_game_progression (attrs s) of
                    None \<Rightarrow> Inl (AttributeError ''_game_progression'')
                  | Some gp \<Rightarrow>
                      (let all_valid_commands = gen_commands_from_actions g (valid_actions gp);
                           c = sorted_list_of_set (set all_valid_commands)
                       in Inr (c, assign (\<lambda>a. a\<lparr>attr_admissible_commands := Some c\<rparr>) s)))))"

text \<open>
  \<^verbatim>\<open>intermediate_reward\<close>. \<^verbatim>\<open>np.sign\<close> of an integer is \<open>sgn\<close>. The previous snapshot is
  an object of its own, and reading its \<^verbatim>\<open>policy_commands\<close> may store the list in it.
\<close>

definition intermediate_reward ::
  "('a, 'q, 'z) snapshot \<Rightarrow> error + int \<times> ('a, 'q, 'z) snapshot" where
  "intermediate_reward s =
     (if \<not> attr_compute_intermediate_reward (attrs s)
      then Inl (OraclePolicyIsRequiredError ''intermediate_reward'')
      else
        (case has_won s of
           Inl e \<Rightarrow> Inl e
         | Inr (won, s1) \<Rightarrow>
             if won then Inr (1, s1)
             else
               (case has_lost s1 of
                  Inl e \<Rightarrow> Inl e
                | Inr (lost, s2) \<Rightarrow>
                    if lost then Inr (- 1, s2)
                    else
                      (case previous_state s2 of
                         None \<Rightarrow> Inr (0, s2)
                       | Some p \<Rightarrow>
                           (case policy_commands p of
                              Inl e \<Rightarrow> Inl e
                            | Inr (previous_commands, p') \<Rightarrow>
                                (case policy_commands (GlulxGameState (attrs s2) (Some p')) of
                                   Inl e \<Rightarrow> Inl e
                                 | Inr (commands, s3) \<Rightarrow>
                                     Inr (sgn (int (length previous_commands)
                                               - int (length commands)), s3)))))))"

text \<open>
  \<^verbatim>\<open>view\<close>: a new object (no \<^verbatim>\<open>_extra_infos\<close>, \<^verbatim>\<open>_game\<close>, \<^verbatim>\<open>_game_progression\<close>)
  that holds what the properties of this one return; the reads are made in the order of
  the source, and the object read is returned with what they stored.
\<close>

definition view ::
  "('a, 'q, 'z) snapshot \<Rightarrow> error + ('a, 'q, 'z) snapshot \<times> ('a, 'q, 'z) snapshot" where
  "view s =
     (case score s of
        Inl e \<Rightarrow> Inl e
      | Inr (sc, s1) \<Rightarrow>
     (case has_won s1 of
        Inl e \<Rightarrow> Inl e
      | Inr (won, s2) \<Rightarrow>
     (case has_lost s2 of
        Inl e \<Rightarrow> Inl e
      | Inr (lost, s3) \<Rightarrow>
     (case (if attr_state_tracking (attrs s3)
            then (case admissible_commands s3 of
                    Inl e \<Rightarrow> Inl e
                  | Inr (c, s') \<Rightarrow> Inr (Some c, s'))
            else Inr (None, s3)) of
        Inl e \<Rightarrow> Inl e
      | Inr (admissible, s4) \<Rightarrow>
     (case (if attr_compute_intermediate_reward (attrs s4)
            then (case policy_commands s4 of
                    Inl e \<Rightarrow> Inl e
                  | Inr (c, s') \<Rightarrow> Inr (Some c, s'))
            else Inr (None, s4)) of
        Inl e \<Rightarrow> Inl e
      | Inr (policy, s5) \<Rightarrow>
          Inr (GlulxGameState
                 \<lparr>has_timeout = has_timeout (attrs s5),
                  attr_state_tracking = attr_state_tracking (attrs s5),
                  attr_compute_intermediate_reward = attr_compute_intermediate_reward (attrs s5),
                  attr_max_score = attr_max_score (attrs s5),
                  attr_command = attr_command (attrs s5),
                  attr_feedback = attr_feedback (attrs s5),
                  attr_nb_moves = attr_nb_moves (attrs s5),
                  attr_objective = attr_objective (attrs s5),
                  attr_action = attr_action (attrs s5),
                  attr_extra_infos = None,
                  attr_game = None,
                  attr_game_progression = None,
                  attr_description =
                    Some (case attr_description (attrs s5) of Some d \<Rightarrow> d | None \<Rightarrow> []),
                  attr_inventory =
                    Some (case attr_inventory (attrs s5) of Some i \<Rightarrow> i | None \<Rightarrow> []),
                  attr_score = Some sc,
                  attr_has_won = Some won,
                  attr_has_lost = Some lost,
                  attr_policy_commands = policy,
                  attr_admissible_commands = admissible\<rparr>
                 (previous_state s5),
               s5))))))"

text \<open>
  The loop of \<^verbatim>\<open>update\<close> over the detected events, on \<^verbatim>\<open>game_state._action\<close> and the
  tracker: every event is looked up among the actions valid at that moment, and an action
  that is found is fed to the tracker.
\<close>

fun track_events ::
  "('a, 'q, 'z) game \<Rightarrow> string list \<Rightarrow> 'a option \<times> ('a, 'z) tracker \<Rightarrow> 'a option \<times> ('a, 'z) tracker" where
  "track_events g [] st = st"
| "track_events g (i7_event # i7_events) st =
     (case st of (old_action, gp) \<Rightarrow>
        (case detect_action g i7_event (valid_actions gp) of
           None \<Rightarrow> track_events g i7_events (None, gp)
         | Some action \<Rightarrow> track_events g i7_events (Some action, progression_update g gp action)))"

text \<open>
  Modelled from the spec: \<^verbatim>\<open>textworld.GameState\<close>, the base class in
  \<^verbatim>\<open>textworld/core.py\<close>, is not among the sources. Of \<^verbatim>\<open>GameState.init(output)\<close> the
  model keeps that the initial snapshot has the text as feedback, no command, no move
  and no previous snapshot; of \<^verbatim>\<open>GameState.update(command, output)\<close> that the new object
  is a fresh one of the class with the command, the text as feedback and one move more
  (``Initial: stores the introductory narrative as feedback with no command'', ``each
  successful step increases move count by exactly 1''). A fresh \<^verbatim>\<open>GlulxGameState\<close> has
  \<^verbatim>\<open>has_timeout\<close> and both flags false, \<^verbatim>\<open>_max_score\<close> 0 and none of the attributes
  that are tested with \<^verbatim>\<open>hasattr\<close>.
\<close>

definition base_update ::
  "('a, 'q, 'z) snapshot \<Rightarrow> string \<Rightarrow> string \<Rightarrow> ('a, 'q, 'z) attrs" where
  "base_update s command output =
     \<lparr>has_timeout = False,
      attr_state_tracking = False,
      attr_compute_intermediate_reward = False,
      attr_max_score = 0,
      attr_command = Some command,
      attr_feedback = output,
      attr_nb_moves = attr_nb_moves (attrs s) + 1,
      attr_objective = [],
      attr_action = None,
      attr_extra_infos = None,
      attr_game = None,
      attr_game_progression = None,
      attr_description = None,
      attr_inventory = None,
      attr_score = None,
      attr_has_won = None,
      attr_has_lost = None,
      attr_policy_commands = None,
      attr_admissible_commands = None\<rparr>"

definition init ::
  "string \<Rightarrow> ('a, 'q, 'z) game \<Rightarrow> bool \<Rightarrow> bool \<Rightarrow> error + ('a, 'q, 'z) snapshot" where
  "init output game state_tracking compute_intermediate_reward =
     (let output = strip_input_prompt_symbol output
      in (case detect_i7_events_debug_tags output of
            Inl e \<Rightarrow> Inl e
          | Inr (evs, output) \<Rightarrow>
              (case detect_extra_infos output of
                 Inl e \<Rightarrow> Inl e
               | Inr (extra_infos, output) \<Rightarrow>
                   (let game_progression = new_progression game state_tracking
                    in Inr (GlulxGameState
                         \<lparr>has_timeout = False,
                          attr_state_tracking = state_tracking,
                          attr_compute_intermediate_reward =
                            (compute_intermediate_reward \<and> length (quests game) > 0),
                          attr_max_score = progression_max_score game_progression,
                          attr_command = None,
                          attr_feedback = output,
                          attr_nb_moves = 0,
                          attr_objective = game_objective game,
                          attr_action = None,
                          attr_extra_infos = Some extra_infos,
                          attr_game = Some game,
                          attr_game_progression = Some game_progression,
                          attr_description = None,
                          attr_inventory = None,
                          attr_score = Some 0,
                          attr_has_won = None,
                          attr_has_lost = None,
                          attr_policy_commands = None,
                          attr_admissible_commands = None\<rparr>
                         None)))))"

text \<open>
  \<^verbatim>\<open>update\<close>: the new snapshot. \<^verbatim>\<open>{**self._extra_infos, **extra_infos}\<close> is \<open>++\<close> on maps.
\<close>

definition update ::
  "('a, 'q, 'z) snapshot \<Rightarrow> string \<Rightarrow> string \<Rightarrow> error + ('a, 'q, 'z) snapshot" where
  "update s command output =
     (let output = strip_input_prompt_symbol output
      in (case detect_extra_infos output of
            Inl e \<Rightarrow> Inl e
          | Inr (extra_infos, output) \<Rightarrow>
     (case view s of
        Inl e \<Rightarrow> Inl e
      | Inr (previous, s') \<Rightarrow>
     (case attr_game (attrs s') of
        None \<Rightarrow> Inl (AttributeError ''_inform7'')
      | Some g \<Rightarrow>
     (case attr_game_progression (attrs s') of
        None \<Rightarrow> Inl (AttributeError ''_game_progression'')
      | Some gp \<Rightarrow>
     (case attr_extra_infos (attrs s') of
        None \<Rightarrow> Inl (AttributeError ''_extra_infos'')
      | Some old_infos \<Rightarrow>
     (case detect_i7_events_debug_tags output of
        Inl e \<Rightarrow> Inl e
      | Inr (i7_events, feedback) \<Rightarrow>
          (let tracked =
                 (if attr_state_tracking (attrs s')
                  then track_events g i7_events (None, gp)
                  else (None, gp))
           in Inr (GlulxGameState
                ((base_update s' command output)
                   \<lparr>attr_objective := attr_objective (attrs s'),
                    attr_max_score := attr_max_score (attrs s'),
                    attr_game := Some g,
                    attr_game_progression := Some (snd tracked),
                    attr_state_tracking := attr_state_tracking (attrs s'),
                    attr_compute_intermediate_reward :=
                      attr_compute_intermediate_reward (attrs s'),
                    attr_extra_infos := Some (old_infos ++ extra_infos),
                    attr_feedback := feedback,
                    attr_action := fst tracked\<rparr>)
                (Some previous))))))))))"

section \<open>The session driver\<close>

text \<open>
  The interpreter process and the sockets of the \<^verbatim>\<open>glk\<close> library are outside the
  module. Their state is a value of a type \<open>'w\<close>, and what the module does with them is a
  record of operations on it: \<open>poll\<close> is \<^verbatim>\<open>self._process.poll() is None\<close> (the process
  is still running) together with the state after the look, since a process can exit at any
  moment; \<open>communicate\<close> is \<^verbatim>\<open>lib.communicate\<close>, decoded, \<open>None\<close> for \<^verbatim>\<open>ffi.NULL\<close>;
  \<open>kill\<close> is \<^verbatim>\<open>kill()\<close> followed by \<^verbatim>\<open>wait()\<close>; \<open>cleanup_glulx\<close> is
  \<^verbatim>\<open>lib.cleanup_glulx\<close>, which does nothing before the first \<^verbatim>\<open>reset\<close>. Nothing is
  assumed about them.
\<close>

record 'w transport =
  poll :: "'w \<Rightarrow> bool \<times> 'w"
  communicate :: "'w \<Rightarrow> string \<Rightarrow> string option \<times> 'w"
  kill :: "'w \<Rightarrow> 'w"
  cleanup_glulx :: "'w \<Rightarrow> 'w"

text \<open>
  An object of \<^verbatim>\<open>GitGlulxMLEnvironment\<close>: \<open>process\<close> says that \<^verbatim>\<open>self._process\<close> is
  not \<^verbatim>\<open>None\<close>, \<open>game_state\<close> is \<open>None\<close> before the first \<^verbatim>\<open>reset\<close>.
\<close>

record ('a, 'q, 'z, 'w) environment =
  env_state_tracking :: bool
  env_compute_intermediate_reward :: bool
  env_game :: "('a, 'q, 'z) game"
  game_state :: "('a, 'q, 'z) snapshot option"
  extra_info :: "string set"
  process :: bool
  world :: 'w

definition game_running ::
  "'w transport \<Rightarrow> ('a, 'q, 'z, 'w) environment \<Rightarrow> bool \<times> ('a, 'q, 'z, 'w) environment" where
  "game_running T env =
     (if process env
      then (case poll T (world env) of (alive, w) \<Rightarrow> (alive, env\<lparr>world := w\<rparr>))
      else (False, env))"

definition close ::
  "'w transport \<Rightarrow> ('a, 'q, 'z, 'w) environment \<Rightarrow> ('a, 'q, 'z, 'w) environment" where
  "close T env =
     (case game_running T env of
        (running, env1) \<Rightarrow>
          (let env2 = (if running then env1\<lparr>world := kill T (world env1), process := False\<rparr>
                       else env1)
           in env2\<lparr>world := cleanup_glulx T (world env2)\<rparr>))"

text \<open>\<^verbatim>\<open>_send\<close>: the output of the interpreter, or \<open>None\<close>, and the environment afterwards.\<close>

definition send ::
  "'w transport \<Rightarrow> ('a, 'q, 'z, 'w) environment \<Rightarrow> string
     \<Rightarrow> string option \<times> ('a, 'q, 'z, 'w) environment" where
  "send T env command =
     (case game_running T env of
        (running, env1) \<Rightarrow>
          if \<not> running then (None, env1)
          else
            (let command = (if length command = 0 then '' '' else command)
             in (case communicate T (world env1) command of
                   (None, w) \<Rightarrow> (None, close T (env1\<lparr>world := w\<rparr>))
                 | (Some result, w) \<Rightarrow>
                     (Some (replace result (CHR 0x5C # ''033['') (ESC # ''['')),
                      env1\<lparr>world := w\<rparr>))))"

text \<open>
  \<^verbatim>\<open>step\<close>: the triple that is returned or the exception that is raised, and the
  environment afterwards. The snapshot of the triple is the object \<^verbatim>\<open>self.game_state\<close>
  after the reads of \<^verbatim>\<open>score\<close> and \<^verbatim>\<open>game_ended\<close> that build the triple.
\<close>

definition step ::
  "'w transport \<Rightarrow> ('a, 'q, 'z, 'w) environment \<Rightarrow> string
     \<Rightarrow> (error + ('a, 'q, 'z) snapshot \<times> int \<times> bool) \<times> ('a, 'q, 'z, 'w) environment" where
  "step T env command =
     (case game_running T env of
        (running, env1) \<Rightarrow>
          if \<not> running then (Inl GameNotRunningError, env1)
          else
            (let command = strip command
             in (case send T env1 command of
                   (None, env2) \<Rightarrow> (Inl GameNotRunningError, env2)
                 | (Some output, env2) \<Rightarrow>
                     (case game_state env2 of
                        None \<Rightarrow> (Inl (AttributeError ''update''), env2)
                      | Some gs \<Rightarrow>
                          (case update gs command output of
                             Inl e \<Rightarrow> (Inl e, env2)
                           | Inr gs1 \<Rightarrow>
                               (case game_running T env2 of
                                  (running', env3) \<Rightarrow>
                                    (let gs2 = assign (\<lambda>a. a\<lparr>has_timeout := \<not> running'\<rparr>) gs1
                                     in (case score gs2 of
                                           Inl e \<Rightarrow> (Inl e, env3\<lparr>game_state := Some gs2\<rparr>)
                                         | Inr (sc, gs3) \<Rightarrow>
                                             (case game_ended gs3 of
                                                Inl e \<Rightarrow> (Inl e, env3\<lparr>game_state := Some gs3\<rparr>)
                                              | Inr (ended, gs4) \<Rightarrow>
                                                  (Inr (gs4, sc, ended),
                                                   env3\<lparr>game_state := Some gs4\<rparr>))))))))))"

section \<open>Sessions\<close>

text \<open>The value that a read returns, without the object.\<close>

definition result :: "error + 'v \<times> 's \<Rightarrow> error + 'v" where
  "result r = map_sum id fst r"

text \<open>
  The snapshots of a session on the game \<open>g\<close> with state tracking \<open>st\<close> and the
  intermediate reward \<open>cir\<close> asked for: the initial snapshot that \<^verbatim>\<open>init\<close> makes,
  every snapshot that \<^verbatim>\<open>update\<close> makes from one of them, every view that \<^verbatim>\<open>view\<close>
  makes of one of them (the objects that are reached through \<^verbatim>\<open>previous_state\<close>), and
  these objects after \<^verbatim>\<open>step\<close> has assigned \<^verbatim>\<open>has_timeout\<close> or after a property
  has been read.
\<close>

inductive session ::
  "('a, 'q, 'z) game \<Rightarrow> bool \<Rightarrow> bool \<Rightarrow> ('a, 'q, 'z) snapshot \<Rightarrow> bool"
  for g :: "('a, 'q, 'z) game" and st :: bool and cir :: bool where
  initial: "init output g st cir = Inr s \<Longrightarrow> session g st cir s"
| updated: "session g st cir s \<Longrightarrow> update s command output = Inr s' \<Longrightarrow> session g st cir s'"
| viewed: "session g st cir s \<Longrightarrow> view s = Inr (v, s') \<Longrightarrow> session g st cir v"
| timeout: "session g st cir s \<Longrightarrow> session g st cir (assign (\<lambda>a. a\<lparr>has_timeout := b\<rparr>) s)"
| read_score: "session g st cir s \<Longrightarrow> score s = Inr (sc, s') \<Longrightarrow> session g st cir s'"
| read_has_won: "session g st cir s \<Longrightarrow> has_won s = Inr (w, s') \<Longrightarrow> session g st cir s'"
| read_has_lost: "session g st cir s \<Longrightarrow> has_lost s = Inr (l, s') \<Longrightarrow> session g st cir s'"
| read_policy_commands:
    "session g st cir s \<Longrightarrow> policy_commands s = Inr (c, s') \<Longrightarrow> session g st cir s'"
| read_admissible_commands:
    "session g st cir s \<Longrightarrow> admissible_commands s = Inr (c, s') \<Longrightarrow> session g st cir s'"
| read_intermediate_reward:
    "session g st cir s \<Longrightarrow> intermediate_reward s = Inr (r, s') \<Longrightarrow> session g st cir s'"

text \<open>
  What \<^verbatim>\<open>score\<close> computes when nothing is stored, as a function of the attributes.
\<close>

definition computed_score :: "('a, 'q, 'z) attrs \<Rightarrow> error + int" where
  "computed_score a = result (score (GlulxGameState (a\<lparr>attr_score := None\<rparr>) None))"

text \<open>
  The invariant of the snapshots of a session. The flags are those of the session, lists
  of commands are stored only under their flag, and the previous snapshot has the same
  reward flag and, under it, a stored policy. Besides, a snapshot is either \<open>live\<close>, made
  by \<^verbatim>\<open>init\<close> or \<^verbatim>\<open>update\<close>: it has the game, the tracker and the facts, and a stored
  list of admissible commands or a stored score is the one that would be computed (the
  initial score is the stored 0); or it is \<open>stored\<close>, made by \<^verbatim>\<open>view\<close>: it has none
  of the three, and every property is stored that can be read under its flags.
\<close>

definition flags_kept :: "('a, 'q, 'z) game \<Rightarrow> bool \<Rightarrow> bool \<Rightarrow> ('a, 'q, 'z) snapshot \<Rightarrow> bool" where
  "flags_kept g st cir s =
     (attr_state_tracking (attrs s) = st
      \<and> attr_compute_intermediate_reward (attrs s) = (cir \<and> quests g \<noteq> [])
      \<and> (attr_admissible_commands (attrs s) \<noteq> None \<longrightarrow> st)
      \<and> (attr_policy_commands (attrs s) \<noteq> None \<longrightarrow> cir \<and> quests g \<noteq> [])
      \<and> (\<forall>p. previous_state s = Some p \<longrightarrow>
             attr_compute_intermediate_reward (attrs p) = attr_compute_intermediate_reward (attrs s)
             \<and> (attr_compute_intermediate_reward (attrs s) \<longrightarrow> attr_policy_commands (attrs p) \<noteq> None)))"

definition live :: "('a, 'q, 'z) game \<Rightarrow> ('a, 'q, 'z) attrs \<Rightarrow> bool" where
  "live g a =
     (attr_game a = Some g
      \<and> attr_extra_infos a \<noteq> None
      \<and> attr_game_progression a \<noteq> None
      \<and> (\<forall>c gp. attr_admissible_commands a = Some c \<longrightarrow> attr_game_progression a = Some gp \<longrightarrow>
             c = sorted_list_of_set (set (gen_commands_from_actions g (valid_actions gp))))
      \<and> (\<forall>v. attr_score a = Some v \<longrightarrow>
             (attr_nb_moves a = 0 \<and> v = 0) \<or> computed_score a = Inr v))"

definition stored :: "('a, 'q, 'z) attrs \<Rightarrow> bool" where
  "stored a =
     (attr_game a = None
      \<and> attr_extra_infos a = None
      \<and> attr_game_progression a = None
      \<and> attr_score a \<noteq> None
      \<and> attr_has_won a \<noteq> None
      \<and> attr_has_lost a \<noteq> None
      \<and> (attr_state_tracking a \<longrightarrow> attr_admissible_commands a \<noteq> None)
      \<and> (attr_compute_intermediate_reward a \<longrightarrow> attr_policy_commands a \<noteq> None))"

definition session_invariant ::
  "('a, 'q, 'z) game \<Rightarrow> bool \<Rightarrow> bool \<Rightarrow> ('a, 'q, 'z) snapshot \<Rightarrow> bool" where
  "session_invariant g st cir s =
     (flags_kept g st cir s \<and> (live g (attrs s) \<or> stored (attrs s)))"

text \<open>
  The same snapshots, each with the tracker and the side-channel facts of its moment.
  \<^verbatim>\<open>init\<close> makes the tracker of the game, and the facts are those of the start-of-game
  text, which it scans for event tags first. \<^verbatim>\<open>update\<close> scans the output of the command
  for facts first and for event tags then; with state tracking the tracker is fed the
  events, and the facts are those observed before, overridden by those of this output. A
  view is a picture of the snapshot it is made of: its tracker and facts are those of that
  snapshot. Assignments of \<^verbatim>\<open>has_timeout\<close> and reads change neither.
\<close>

inductive reached ::
  "('a, 'q, 'z) game \<Rightarrow> bool \<Rightarrow> bool \<Rightarrow> ('a, 'q, 'z) snapshot
    \<Rightarrow> ('a, 'z) tracker \<Rightarrow> (string \<rightharpoonup> string) \<Rightarrow> bool"
  for g :: "('a, 'q, 'z) game" and st :: bool and cir :: bool where
  reached_initial:
    "init output g st cir = Inr s
     \<Longrightarrow> detect_i7_events_debug_tags (strip_input_prompt_symbol output) = Inr (evs, narrative)
     \<Longrightarrow> detect_extra_infos narrative = Inr (facts, feedback)
     \<Longrightarrow> reached g st cir s (new_progression g st) facts"
| reached_updated:
    "reached g st cir s gp facts \<Longrightarrow> update s command output = Inr s'
     \<Longrightarrow> detect_extra_infos (strip_input_prompt_symbol output) = Inr (new_facts, narrative)
     \<Longrightarrow> detect_i7_events_debug_tags narrative = Inr (evs, feedback)
     \<Longrightarrow> reached g st cir s'
           (if st then snd (track_events g evs (None, gp)) else gp) (facts ++ new_facts)"
| reached_viewed:
    "reached g st cir s gp facts \<Longrightarrow> view s = Inr (v, s') \<Longrightarrow> reached g st cir v gp facts"
| reached_timeout:
    "reached g st cir s gp facts
     \<Longrightarrow> reached g st cir (assign (\<lambda>a. a\<lparr>has_timeout := b\<rparr>) s) gp facts"
| reached_score:
    "reached g st cir s gp facts \<Longrightarrow> score s = Inr (sc, s') \<Longrightarrow> reached g st cir s' gp facts"
| reached_has_won:
    "reached g st cir s gp facts \<Longrightarrow> has_won s = Inr (w, s') \<Longrightarrow> reached g st cir s' gp facts"
| reached_has_lost:
    "reached g st cir s gp facts \<Longrightarrow> has_lost s = Inr (l, s') \<Longrightarrow> reached g st cir s' gp facts"
| reached_policy_commands:
    "reached g st cir s gp facts \<Longrightarrow> policy_commands s = Inr (c, s')
     \<Longrightarrow> reached g st cir s' gp facts"
| reached_admissible_commands:
    "reached g st cir s gp facts \<Longrightarrow> admissible_commands s = Inr (c, s')
     \<Longrightarrow> reached g st cir s' gp facts"
| reached_intermediate_reward:
    "reached g st cir s gp facts \<Longrightarrow> intermediate_reward s = Inr (r, s')
     \<Longrightarrow> reached g st cir s' gp facts"

text \<open>
  The score that follows from a tracker and from the facts observed: the score of the
  tracker with state tracking, the fact \<open>score\<close> read by \<^verbatim>\<open>int\<close> without.
\<close>

definition observed_score :: "bool \<Rightarrow> ('a, 'z) tracker \<Rightarrow> (string \<rightharpoonup> string) \<Rightarrow> error + int" where
  "observed_score st gp facts =
     (if st then Inr (progression_score gp)
      else (case facts ''score'' of
              None \<Rightarrow> Inl (ExtraInfosIsMissingError ''score'')
            | Some v \<Rightarrow> py_int v))"

text \<open>
  How the attributes of a snapshot agree with its tracker and facts: a snapshot that has
  the game has this tracker and these facts; one that has not (a view) has stored, under
  state tracking, the commands of this tracker and, after a move, the score that follows
  from the tracker and the facts.
\<close>

definition agrees ::
  "('a, 'q, 'z) game \<Rightarrow> bool \<Rightarrow> ('a, 'z) tracker \<Rightarrow> (string \<rightharpoonup> string)
    \<Rightarrow> ('a, 'q, 'z) attrs \<Rightarrow> bool" where
  "agrees g st gp facts a =
     ((attr_game a \<noteq> None \<longrightarrow>
         attr_game_progression a = Some gp \<and> attr_extra_infos a = Some facts)
      \<and> (attr_game a = None \<longrightarrow>
           (st \<longrightarrow> attr_admissible_commands a
                    = Some (sorted_list_of_set (set (gen_commands_from_actions g (valid_actions gp)))))
           \<and> (\<forall>v. 0 < attr_nb_moves a \<longrightarrow> attr_score a = Some v \<longrightarrow>
                  observed_score st gp facts = Inr v)))"

section \<open>A small game and a small interpreter\<close>

text \<open>
  A game with one quest, in which opening the door is the first of two winning actions,
  and an interpreter that answers a fixed number of commands and then exits. They are the
  concrete inputs at which the theorems below are applied.
\<close>

definition demo_progression :: "string game_progression" where
  "demo_progression =
     \<lparr>valid_actions = [''open door'', ''look''],
      completed = False,
      failed = False,
      progression_score = 0,
      winning_policy = Some [''open door'', ''go east''],
      progression_max_score = 1\<rparr>"

definition demo_game :: "(string, unit, unit) game" where
  "demo_game =
     \<lparr>quests = [()],
      game_objective = ''Leave.'',
      new_progression = (\<lambda>track_quests. demo_progression),
      progression_update =
        (\<lambda>gp action.
           if action = ''open door''
           then gp\<lparr>valid_actions := [''go east'', ''look''],
                   progression_score := 1,
                   winning_policy := Some [''go east'']\<rparr>
           else gp),
      gen_commands_from_actions = (\<lambda>actions. actions),
      detect_action =
        (\<lambda>i7_event actions.
           if i7_event = ''opening door'' \<and> ''open door'' \<in> set actions
           then Some ''open door'' else None)\<rparr>"

definition demo_transport :: "nat transport" where
  "demo_transport =
     \<lparr>poll = (\<lambda>n. (0 < n, n)),
      communicate = (\<lambda>n command. (Some ''*** The End ***'', n - 1)),
      kill = (\<lambda>n. 0),
      cleanup_glulx = (\<lambda>n. n)\<rparr>"

text \<open>
  The initial snapshot of the game with state tracking and the intermediate reward, and
  the snapshot after the command that opens the door.
\<close>

definition demo_initial :: "(string, unit, unit) snapshot" where
  "demo_initial = projr (init ''Hi'' demo_game True True)"

definition demo_moved :: "(string, unit, unit) snapshot" where
  "demo_moved =
     projr (update demo_initial ''open door'' ''[opening door][opening door - succeeded]'')"

text \<open>The initial snapshot of the game with neither state tracking nor the reward.\<close>

definition demo_untracked :: "(string, unit, unit) snapshot" where
  "demo_untracked = projr (init ''Hi'' demo_game False False)"

text \<open>
  The game without quests, its initial snapshot when the reward is asked for, and the
  snapshots of the untracked game when the start-of-game text or the output of a command
  holds a score block.
\<close>

definition demo_no_quests :: "(string, unit, unit) game" where
  "demo_no_quests = demo_game\<lparr>quests := []\<rparr>"

definition demo_questless :: "(string, unit, unit) snapshot" where
  "demo_questless = projr (init ''Hi'' demo_no_quests True True)"

definition demo_scored_initial :: "(string, unit, unit) snapshot" where
  "demo_scored_initial =
     projr (init ''<score>\<newline>7\<newline></score>'' demo_game False False)"

definition demo_scored :: "(string, unit, unit) snapshot" where
  "demo_scored = projr (update demo_untracked ''look'' ''<score>\<newline>7\<newline></score>'')"

definition demo_unscored :: "(string, unit, unit) snapshot" where
  "demo_unscored = projr (update demo_untracked ''look'' ''Hi'')"

text \<open>
  The initial snapshot of the game with state tracking and without the reward, and an
  environment that holds it while the interpreter has one answer left.
\<close>

definition demo_tracked :: "(string, unit, unit) snapshot" where
  "demo_tracked = projr (init ''Hi'' demo_game True False)"

definition demo_env :: "(string, unit, unit, nat) environment" where
  "demo_env =
     \<lparr>env_state_tracking = True,
      env_compute_intermediate_reward = False,
      env_game = demo_game,
      game_state = Some demo_tracked,
      extra_info = {},
      process = True,
      world = 1\<rparr>"

text \<open>The snapshot that the first step of this environment returns.\<close>

definition demo_ended :: "(string, unit, unit) snapshot" where
  "demo_ended = fst (projr (fst (step demo_transport demo_env ''look'')))"

text \<open>
  The same game when every list of actions is rendered twice, backwards and then
  forwards, so that the renderings are neither sorted nor distinct; its initial snapshot
  with state tracking, the snapshot after the door is opened, and the tracker after the
  door is opened.
\<close>

definition demo_mirror :: "(string, unit, unit) game" where
  "demo_mirror = demo_game\<lparr>gen_commands_from_actions := (\<lambda>actions. rev actions @ actions)\<rparr>"

definition demo_mirror_initial :: "(string, unit, unit) snapshot" where
  "demo_mirror_initial = projr (init ''Hi'' demo_mirror True False)"

definition demo_mirror_moved :: "(string, unit, unit) snapshot" where
  "demo_mirror_moved =
     projr (update demo_mirror_initial ''open door'' ''[opening door][opening door - succeeded]'')"

definition demo_opened :: "string game_progression" where
  "demo_opened =
     demo_progression\<lparr>valid_actions := [''go east'', ''look''],
                       progression_score := 1,
                       winning_policy := Some [''go east'']\<rparr>"

text \<open>
  The snapshot of the untracked game one command after the score block was received,
  when the output of that command holds no score block.
\<close>

definition demo_carried :: "(string, unit, unit) snapshot" where
  "demo_carried = projr (update demo_scored ''look'' ''Hi'')"
section \<open>The scanner by its parts\<close>

text \<open>
  A description of the scanner that follows the words of the specification: the text
  holds bracket-delimited tokens, every token has a name, a name is the closing of a
  failed event, the closing of a succeeded event or the opening of an event, and the open
  events and the recorded successes are computed from the names alone.

  A token stands at the head of a text that begins with an opening bracket, a character
  other than a closing bracket, and has a closing bracket further on.
\<close>

fun token_at :: "string \<Rightarrow> bool" where
  "token_at (c # d # ds) = (c = CHR ''['' \<and> d \<noteq> CHR '']'' \<and> CHR '']'' \<in> set ds)"
| "token_at [c] = False"
| "token_at [] = False"

text \<open>
  The names of the tokens of a text, in text order; \<open>prev\<close> is the character before the
  text. A token is an opening bracket, its name (one or more characters other than a
  closing bracket) and a closing bracket, together with the newline that follows, if one
  does; it is not preceded by the escape character. The tokens are taken from left to
  right: a position is passed over only when no token stands there, and the text after a
  token is read on from behind it.
\<close>

inductive tokens :: "char option \<Rightarrow> string \<Rightarrow> string list \<Rightarrow> bool" where
  tokens_end:
    "tokens prev [] []"
| tokens_skip:
    "prev = Some ESC \<or> \<not> token_at (c # cs) \<Longrightarrow> tokens (Some c) cs names
     \<Longrightarrow> tokens prev (c # cs) names"
| tokens_token:
    "prev \<noteq> Some ESC \<Longrightarrow> name \<noteq> [] \<Longrightarrow> CHR '']'' \<notin> set name
     \<Longrightarrow> rest = [] \<or> hd rest \<noteq> NL \<Longrightarrow> tokens (Some (CHR '']'')) rest names
     \<Longrightarrow> tokens prev (CHR ''['' # name @ CHR '']'' # rest) (name # names)"
| tokens_token_newline:
    "prev \<noteq> Some ESC \<Longrightarrow> name \<noteq> [] \<Longrightarrow> CHR '']'' \<notin> set name
     \<Longrightarrow> tokens (Some NL) rest names
     \<Longrightarrow> tokens prev (CHR ''['' # name @ CHR '']'' # NL # rest) (name # names)"

text \<open>
  The name that the loop takes from a match, \<^verbatim>\<open>match.strip()[1:-1]\<close>. A name closes an
  event when the marker occurs anywhere in it, the failure marker first, as the code tests
  it.
\<close>

definition tag_name :: "string \<Rightarrow> string" where
  "tag_name m = butlast (tl (strip m))"

datatype event = Opened string | Succeeded string | Failed string

definition classify :: "string \<Rightarrow> event" where
  "classify n =
     (case find_sub '' - failed'' n of
        Some i \<Rightarrow> Failed (take i n)
      | None \<Rightarrow>
          (case find_sub '' - succeeded'' n of
             Some i \<Rightarrow> Succeeded (take i n)
           | None \<Rightarrow> Opened n))"

text \<open>
  The open events after a list of events: an opening is appended, a closing takes the
  first open event of its base name away, and there is no result when none is open.
\<close>

fun balance :: "event list \<Rightarrow> string list \<Rightarrow> string list option" where
  "balance [] open_tags = Some open_tags"
| "balance (Opened n # es) open_tags = balance es (open_tags @ [n])"
| "balance (Succeeded n # es) open_tags =
     (if n \<in> set open_tags then balance es (remove1 n open_tags) else None)"
| "balance (Failed n # es) open_tags =
     (if n \<in> set open_tags then balance es (remove1 n open_tags) else None)"

text \<open>The base names of the succeeded events, in the order of the events.\<close>

fun successes :: "event list \<Rightarrow> string list" where
  "successes [] = []"
| "successes (Succeeded n # es) = n # successes es"
| "successes (e # es) = successes es"

text \<open>The text variable of the loop after the matches \<open>ms\<close>.\<close>

definition remove_tokens :: "string list \<Rightarrow> string \<Rightarrow> string" where
  "remove_tokens ms text = foldl (\<lambda>t m. replace t m []) text ms"

section \<open>The blocks by their place\<close>

text \<open>
  The place of the block of a tag in a text: it begins where the first opening tag of the
  text begins and ends where the last closing tag ends, and there is none when a tag is
  missing or the last closing tag does not come after the first opening tag.
\<close>

definition block_span :: "string \<Rightarrow> string \<Rightarrow> (nat \<times> nat) option" where
  "block_span tag text =
     (case find_sub (open_tag tag) text of
        None \<Rightarrow> None
      | Some i \<Rightarrow>
          (case rfind_sub (close_tag tag) text of
             None \<Rightarrow> None
           | Some j \<Rightarrow>
               if i + length (open_tag tag) \<le> j then Some (i, j + length (close_tag tag))
               else None))"

text \<open>A place that lies before the position \<open>a\<close> or behind the position \<open>b\<close>, or no place.\<close>

definition outside :: "(nat \<times> nat) option \<Rightarrow> nat \<Rightarrow> nat \<Rightarrow> bool" where
  "outside span a b = (case span of None \<Rightarrow> True | Some (i, e) \<Rightarrow> e \<le> a \<or> b \<le> i)"

text \<open>The first occurrence is the last one: the text holds \<open>sub\<close> once or not at all.\<close>

definition at_most_once :: "string \<Rightarrow> string \<Rightarrow> bool" where
  "at_most_once sub text = (find_sub sub text = rfind_sub sub text)"

text \<open>
  What the loop of \<^verbatim>\<open>_detect_extra_infos\<close> adds to the dictionary for one tag: nothing
  when the text has no block of the tag, and the inner text of the block after the
  event-tag scan otherwise.
\<close>

definition block_fact :: "string \<Rightarrow> string \<Rightarrow> error + (string \<rightharpoonup> string)" where
  "block_fact tag text =
     (case search_block tag text of
        None \<Rightarrow> Inr Map.empty
      | Some (p, g, r) \<Rightarrow>
          (case detect_i7_events_debug_tags g of
             Inl e \<Rightarrow> Inl e
           | Inr (evs, cleaned_text) \<Rightarrow> Inr [tag \<mapsto> cleaned_text]))"

section \<open>The scanner and its tokens\<close>

lemma scan_loop_eq:
  "scan_loop ms (acc, ot, t) =
     (case balance (map (\<lambda>m. classify (tag_name m)) ms) ot of
        None \<Rightarrow> Inl ValueError
      | Some ot' \<Rightarrow>
          Inr (acc @ successes (map (\<lambda>m. classify (tag_name m)) ms), ot', remove_tokens ms t))"
proof (induction ms arbitrary: acc ot t)
  case Nil
  then show ?case by (simp add: remove_tokens_def)
next
  case (Cons m ms)
  show ?case
  proof (cases "classify (tag_name m)")
    case (Opened n)
    then have "scan_step m (acc, ot, t) = Inr (acc, ot @ [n], replace t m [])"
      by (auto simp: scan_step_def classify_def tag_name_def Let_def split: option.splits)
    with Opened Cons.IH show ?thesis
      by (simp add: remove_tokens_def split: option.splits)
  next
    case (Succeeded n)
    then have "scan_step m (acc, ot, t) =
        (if n \<in> set ot then Inr (acc @ [n], remove1 n ot, replace t m []) else Inl ValueError)"
      by (auto simp: scan_step_def classify_def tag_name_def Let_def list_remove_def
          split: option.splits)
    with Succeeded Cons.IH show ?thesis
      by (simp add: remove_tokens_def split: option.splits)
  next
    case (Failed n)
    then have "scan_step m (acc, ot, t) =
        (if n \<in> set ot then Inr (acc, remove1 n ot, replace t m []) else Inl ValueError)"
      by (auto simp: scan_step_def classify_def tag_name_def Let_def list_remove_def
          split: option.splits)
    with Failed Cons.IH show ?thesis
      by (simp add: remove_tokens_def split: option.splits)
  qed
qed

text \<open>The matches of the regular expression are the tokens, and their names the names.\<close>

lemma token_at_iff:
  "token_at s \<longleftrightarrow>
     (\<exists>name rest. name \<noteq> [] \<and> CHR '']'' \<notin> set name \<and> s = CHR ''['' # name @ CHR '']'' # rest)"
proof
  assume a: "token_at s"
  then obtain c d ds where s: "s = c # d # ds"
    by (cases s rule: token_at.cases) auto
  let ?p = "\<lambda>x. x \<noteq> CHR '']''"
  from a s have c: "c = CHR ''[''" and d: "d \<noteq> CHR '']''" and e: "CHR '']'' \<in> set ds" by auto
  from e have "dropWhile ?p ds \<noteq> []" by (auto simp: dropWhile_eq_Nil_conv)
  moreover have "hd (dropWhile ?p ds) = CHR '']''"
    using calculation hd_dropWhile [of ?p ds] by simp
  ultimately have "dropWhile ?p ds = CHR '']'' # tl (dropWhile ?p ds)"
    by (cases "dropWhile ?p ds") auto
  then have "ds = takeWhile ?p ds @ CHR '']'' # tl (dropWhile ?p ds)"
    using takeWhile_dropWhile_id [of ?p ds] by simp
  then have "s = CHR ''['' # (d # takeWhile ?p ds) @ CHR '']'' # tl (dropWhile ?p ds)"
    using s c by simp
  moreover have "CHR '']'' \<notin> set (d # takeWhile ?p ds)"
    using d by (auto dest: set_takeWhileD)
  ultimately show "\<exists>name rest. name \<noteq> [] \<and> CHR '']'' \<notin> set name
      \<and> s = CHR ''['' # name @ CHR '']'' # rest"
    by blast
next
  assume "\<exists>name rest. name \<noteq> [] \<and> CHR '']'' \<notin> set name \<and> s = CHR ''['' # name @ CHR '']'' # rest"
  then obtain name rest where n: "name \<noteq> []" "CHR '']'' \<notin> set name"
    and s: "s = CHR ''['' # name @ CHR '']'' # rest" by blast
  from n(1) obtain d ds where "name = d # ds" by (cases name) auto
  with n s show "token_at s" by auto
qed

lemma match_tag_token:
  assumes "name \<noteq> []" and "CHR '']'' \<notin> set name"
  shows "match_tag (CHR ''['' # name @ CHR '']'' # rest) =
           (case rest of
              [] \<Rightarrow> Some (CHR ''['' # name @ [CHR '']''], [])
            | d # ds \<Rightarrow>
                if d = NL then Some (CHR ''['' # name @ [CHR '']'', NL], ds)
                else Some (CHR ''['' # name @ [CHR '']''], d # ds))"
proof -
  let ?p = "\<lambda>x. x \<noteq> CHR '']''"
  from assms(2) have "takeWhile ?p (name @ CHR '']'' # rest) = name"
    by (subst takeWhile_append2) auto
  moreover from assms(2) have "dropWhile ?p (name @ CHR '']'' # rest) = CHR '']'' # rest"
    by (subst dropWhile_append2) auto
  ultimately show ?thesis using assms(1)
    by (simp add: Let_def split: list.splits)
qed

lemma match_tag_None_iff:
  "match_tag s = None \<longleftrightarrow> \<not> token_at s"
proof
  assume a: "match_tag s = None"
  show "\<not> token_at s"
  proof
    assume "token_at s"
    then obtain name rest where "name \<noteq> []" "CHR '']'' \<notin> set name"
      "s = CHR ''['' # name @ CHR '']'' # rest"
      by (auto simp: token_at_iff)
    with match_tag_token [of name rest] a show False
      by (auto split: list.splits if_splits)
  qed
next
  assume a: "\<not> token_at s"
  show "match_tag s = None"
  proof (cases s)
    case Nil
    then show ?thesis by simp
  next
    case (Cons c cs)
    show ?thesis
    proof (cases cs)
      case Nil
      with Cons show ?thesis by (simp add: Let_def)
    next
      case (Cons d ds)
      with a \<open>s = c # cs\<close> have "c \<noteq> CHR ''['' \<or> d = CHR '']'' \<or> CHR '']'' \<notin> set ds" by simp
      then have "c \<noteq> CHR ''['' \<or> takeWhile (\<lambda>x. x \<noteq> CHR '']'') (d # ds) = []
          \<or> dropWhile (\<lambda>x. x \<noteq> CHR '']'') (d # ds) = []"
        by (auto simp: dropWhile_eq_Nil_conv)
      with Cons \<open>s = c # cs\<close> show ?thesis by (auto simp: Let_def)
    qed
  qed
qed

lemma tag_name_token:
  assumes "name \<noteq> []"
  shows "tag_name (CHR ''['' # name @ [CHR '']'']) = name"
    and "tag_name (CHR ''['' # name @ [CHR '']'', NL]) = name"
proof -
  have a: "\<not> isspace (CHR ''['')" "\<not> isspace (CHR '']'')" "isspace NL"
    by (simp_all add: isspace_def NL_def)
  have "strip (CHR ''['' # name @ [CHR '']'']) = CHR ''['' # name @ [CHR '']'']"
    using a by (simp add: strip_def)
  then show "tag_name (CHR ''['' # name @ [CHR '']'']) = name"
    by (simp add: tag_name_def butlast_append)
  have "strip (CHR ''['' # name @ [CHR '']'', NL]) = CHR ''['' # name @ [CHR '']'']"
    using a by (simp add: strip_def)
  then show "tag_name (CHR ''['' # name @ [CHR '']'', NL]) = name"
    by (simp add: tag_name_def butlast_append)
qed

lemma tokens_unique:
  "tokens prev text names \<Longrightarrow> names = map tag_name (findall_tags prev text)"
proof (induction rule: tokens.induct)
  case (tokens_end prev)
  then show ?case by simp
next
  case (tokens_skip prev c cs names)
  then show ?case
    by (auto simp: match_tag_None_iff [symmetric] simp del: match_tag.simps)
next
  case (tokens_token prev name rest names)
  from match_tag_token [OF tokens_token(2,3), of rest] tokens_token(4)
  have "match_tag (CHR ''['' # name @ CHR '']'' # rest) = Some (CHR ''['' # name @ [CHR '']''], rest)"
    by (cases rest) auto
  with tokens_token(1,2,6) show ?case
    by (simp add: tag_name_token del: match_tag.simps)
next
  case (tokens_token_newline prev name rest names)
  from match_tag_token [OF tokens_token_newline(2,3), of "NL # rest"]
  have "match_tag (CHR ''['' # name @ CHR '']'' # NL # rest)
      = Some (CHR ''['' # name @ [CHR '']'', NL], rest)"
    by simp
  with tokens_token_newline(1,2,5) show ?case
    by (simp add: tag_name_token del: match_tag.simps)
qed

lemma match_tag_Some:
  assumes "match_tag s = Some (m, rest)"
  shows "\<exists>name. name \<noteq> [] \<and> CHR '']'' \<notin> set name
           \<and> ((m = CHR ''['' # name @ [CHR '']''] \<and> s = CHR ''['' # name @ CHR '']'' # rest
                 \<and> (rest = [] \<or> hd rest \<noteq> NL))
              \<or> (m = CHR ''['' # name @ [CHR '']'', NL]
                 \<and> s = CHR ''['' # name @ CHR '']'' # NL # rest))"
proof -
  from assms have "match_tag s \<noteq> None" by simp
  then have "token_at s" by (simp add: match_tag_None_iff)
  then obtain name r where n: "name \<noteq> []" "CHR '']'' \<notin> set name"
    and s: "s = CHR ''['' # name @ CHR '']'' # r"
    by (auto simp: token_at_iff)
  from match_tag_token [OF n, of r] assms s
  have "(m = CHR ''['' # name @ [CHR '']''] \<and> rest = r \<and> (r = [] \<or> hd r \<noteq> NL))
      \<or> (m = CHR ''['' # name @ [CHR '']'', NL] \<and> r = NL # rest)"
    by (auto split: list.splits if_splits)
  with n s show ?thesis by auto
qed

lemma tokens_findall:
  "tokens prev s (map tag_name (findall_tags prev s))"
proof (induction prev s rule: findall_tags.induct)
  case (1 prev)
  show ?case by (simp add: tokens_end)
next
  case (2 prev c cs)
  show ?case
  proof (cases "prev = Some ESC")
    case True
    from 2(1) [OF True]
    have "tokens (Some c) cs (map tag_name (findall_tags (Some c) cs))" .
    with True show ?thesis by (simp add: tokens_skip del: match_tag.simps)
  next
    case False
    show ?thesis
    proof (cases "match_tag (c # cs)")
      case None
      from 2(2) [OF False None]
      have "tokens (Some c) cs (map tag_name (findall_tags (Some c) cs))" .
      moreover have "\<not> token_at (c # cs)"
        using match_tag_None_iff [of "c # cs"] None by blast
      ultimately have "tokens prev (c # cs) (map tag_name (findall_tags (Some c) cs))"
        by (simp add: tokens_skip)
      with None False show ?thesis by (simp del: match_tag.simps)
    next
      case (Some mr)
      obtain m rest where mr: "mr = (m, rest)" by (cases mr)
      with Some have ma: "match_tag (c # cs) = Some (m, rest)" by simp
      from 2(3) [OF False Some mr [symmetric]]
      have ih: "tokens (Some (last m)) rest (map tag_name (findall_tags (Some (last m)) rest))" .
      from match_tag_Some [OF ma] obtain name where n: "name \<noteq> []" "CHR '']'' \<notin> set name"
        and d: "(m = CHR ''['' # name @ [CHR '']''] \<and> c # cs = CHR ''['' # name @ CHR '']'' # rest
                 \<and> (rest = [] \<or> hd rest \<noteq> NL))
              \<or> (m = CHR ''['' # name @ [CHR '']'', NL]
                 \<and> c # cs = CHR ''['' # name @ CHR '']'' # NL # rest)"
        by blast
      from d have "tokens prev (c # cs) (name # map tag_name (findall_tags (Some (last m)) rest))"
      proof
        assume a: "m = CHR ''['' # name @ [CHR '']''] \<and> c # cs = CHR ''['' # name @ CHR '']'' # rest
                 \<and> (rest = [] \<or> hd rest \<noteq> NL)"
        with ih have "tokens (Some (CHR '']'')) rest
            (map tag_name (findall_tags (Some (last m)) rest))" by simp
        from tokens_token [OF False n _ this] a show ?thesis by metis
      next
        assume a: "m = CHR ''['' # name @ [CHR '']'', NL]
                 \<and> c # cs = CHR ''['' # name @ CHR '']'' # NL # rest"
        with ih have "tokens (Some NL) rest
            (map tag_name (findall_tags (Some (last m)) rest))" by simp
        from tokens_token_newline [OF False n this] a show ?thesis by metis
      qed
      moreover from d n have "tag_name m = name" by (auto simp: tag_name_token)
      ultimately show ?thesis using ma False by (simp del: match_tag.simps)
    qed
  qed
qed


section \<open>The first opening tag and the last closing tag\<close>

lemma rfind_sub_drop:
  "rfind_sub sub s = Some j \<Longrightarrow> n \<le> j \<Longrightarrow> rfind_sub sub (drop n s) = Some (j - n)"
proof (induction s arbitrary: j n)
  case Nil
  then show ?case by (simp split: if_splits)
next
  case (Cons c cs)
  show ?case
  proof (cases n)
    case 0
    with Cons.prems show ?thesis by simp
  next
    case (Suc m)
    with Cons.prems have "j \<noteq> 0" by simp
    with Cons.prems(1) obtain j' where j': "rfind_sub sub cs = Some j'" "j = Suc j'"
      by (auto split: option.splits if_splits)
    with Cons.prems(2) Suc have "m \<le> j'" by simp
    from Cons.IH [OF j'(1) this] Suc j'(2) show ?thesis by simp
  qed
qed

lemma rfind_sub_bound:
  "rfind_sub sub s = Some k \<Longrightarrow> k + length sub \<le> length s"
proof (induction s arbitrary: k)
  case Nil
  then show ?case by (simp split: if_splits)
next
  case (Cons c cs)
  then show ?case
    by (auto split: option.splits if_splits dest: prefix_length_le)
qed

lemma rfind_sub_prefix:
  "prefix sub s \<Longrightarrow> \<exists>j. rfind_sub sub s = Some j"
  by (cases s) (auto split: option.splits)

lemma rfind_sub_last:
  "s = a @ sub @ b \<Longrightarrow> \<exists>j. rfind_sub sub s = Some j \<and> length a \<le> j"
proof (induction a arbitrary: s)
  case Nil
  then have "prefix sub s" by simp
  from rfind_sub_prefix [OF this] show ?case by simp
next
  case (Cons x a)
  then obtain j where "rfind_sub sub (a @ sub @ b) = Some j" "length a \<le> j" by blast
  with Cons.prems show ?case by simp
qed

lemma search_block_first_last:
  "find_sub (open_tag tag) s = Some i \<Longrightarrow> rfind_sub (close_tag tag) s = Some j
    \<Longrightarrow> i + length (open_tag tag) \<le> j
    \<Longrightarrow> search_block tag s =
          Some (take i s, take (j - i - length (open_tag tag)) (drop (i + length (open_tag tag)) s),
                drop (j + length (close_tag tag)) s)"
proof (induction s arbitrary: i j)
  case Nil
  then show ?case by (simp add: open_tag_def split: if_splits)
next
  case (Cons c cs)
  let ?o = "open_tag tag" and ?c = "close_tag tag"
  show ?case
  proof (cases "prefix ?o (c # cs)")
    case True
    with Cons.prems(1) have i: "i = 0" by simp
    with Cons.prems(3) have "length ?o \<le> j" by simp
    from rfind_sub_drop [OF Cons.prems(2) this]
    have "rfind_sub ?c (drop (length ?o) (c # cs)) = Some (j - length ?o)" .
    with True i \<open>length ?o \<le> j\<close> show ?thesis
      by (simp add: Let_def del: drop_Suc_Cons)
  next
    case False
    with Cons.prems(1) obtain i' where i': "find_sub ?o cs = Some i'" "i = Suc i'" by auto
    with Cons.prems(3) have "j \<noteq> 0" by simp
    with Cons.prems(2) obtain j' where j': "rfind_sub ?c cs = Some j'" "j = Suc j'"
      by (auto split: option.splits if_splits)
    from Cons.prems(3) i'(2) j'(2) have "i' + length ?o \<le> j'" by simp
    from Cons.IH [OF i'(1) j'(1) this] False i'(2) j'(2) show ?thesis
      by (simp add: Let_def)
  qed
qed

lemma search_block_after_last:
  assumes "rfind_sub (close_tag tag) s = Some j"
  shows "search_block tag (drop (j + length (close_tag tag)) s) = None"
proof (rule ccontr)
  assume "search_block tag (drop (j + length (close_tag tag)) s) \<noteq> None"
  then obtain p g r where "search_block tag (drop (j + length (close_tag tag)) s) = Some (p, g, r)"
    by auto
  from search_block_splits [OF this]
  have "drop (j + length (close_tag tag)) s = p @ open_tag tag @ g @ close_tag tag @ r" .
  then have "s = (take (j + length (close_tag tag)) s @ p @ open_tag tag @ g) @ close_tag tag @ r"
    by (metis append.assoc append_take_drop_id)
  from rfind_sub_last [OF this] assms
  have l: "length (take (j + length (close_tag tag)) s @ p @ open_tag tag @ g) \<le> j" by simp
  from rfind_sub_bound [OF assms] have "j + length (close_tag tag) \<le> length s" .
  with l show False by (simp add: close_tag_def)
qed

lemma sub_block_first_last:
  assumes "find_sub (open_tag tag) s = Some i" and "rfind_sub (close_tag tag) s = Some j"
    and "i + length (open_tag tag) \<le> j"
  shows "sub_block tag s = take i s @ drop (j + length (close_tag tag)) s"
proof -
  have "sub_block tag s = take i s @ sub_block tag (drop (j + length (close_tag tag)) s)"
    by (subst sub_block.simps) (simp add: search_block_first_last [OF assms])
  also have "sub_block tag (drop (j + length (close_tag tag)) s)
      = drop (j + length (close_tag tag)) s"
    by (subst sub_block.simps) (simp add: search_block_after_last [OF assms(2)])
  finally show ?thesis .
qed

text \<open>Occurrences in a part of a text.\<close>

lemma find_sub_first:
  "s = a @ sub @ b \<Longrightarrow> \<exists>i. find_sub sub s = Some i \<and> i \<le> length a"
proof (induction a arbitrary: s)
  case Nil
  then have "prefix sub s" by simp
  then have "find_sub sub s = Some 0" by (cases s) auto
  then show ?case by simp
next
  case (Cons x a)
  then obtain i where "find_sub sub (a @ sub @ b) = Some i" "i \<le> length a" by blast
  with Cons.prems show ?case by simp
qed

lemma find_sub_drop:
  "find_sub sub s = Some i \<Longrightarrow> n \<le> i \<Longrightarrow> find_sub sub (drop n s) = Some (i - n)"
proof (induction s arbitrary: i n)
  case Nil
  then show ?case by (simp split: if_splits)
next
  case (Cons c cs)
  show ?case
  proof (cases n)
    case 0
    with Cons.prems show ?thesis by simp
  next
    case (Suc m)
    with Cons.prems have "i \<noteq> 0" by simp
    with Cons.prems(1) obtain i' where i': "find_sub sub cs = Some i'" "i = Suc i'"
      by (auto split: if_splits)
    with Cons.prems(2) Suc have "m \<le> i'" by simp
    from Cons.IH [OF i'(1) this] Suc i'(2) show ?thesis by simp
  qed
qed

lemma prefix_append_left:
  "prefix sub (a @ y) \<Longrightarrow> length sub \<le> length a \<Longrightarrow> prefix sub a"
  by (auto simp: prefix_append)

lemma find_sub_left:
  "find_sub sub (a @ y) = Some i \<Longrightarrow> i + length sub \<le> length a \<Longrightarrow> find_sub sub a = Some i"
proof (induction a arbitrary: i)
  case Nil
  then show ?case by simp
next
  case (Cons x a)
  show ?case
  proof (cases "prefix sub (x # a @ y)")
    case True
    with Cons.prems have i: "i = 0" by simp
    with Cons.prems(2) have "length sub \<le> length (x # a)" by simp
    with True have "prefix sub (x # a)"
      using prefix_append_left [of sub "x # a" y] by simp
    with i show ?thesis by simp
  next
    case False
    with Cons.prems(1) obtain i' where i': "find_sub sub (a @ y) = Some i'" "i = Suc i'"
      by auto
    from False have "\<not> prefix sub (x # a)"
      using prefix_prefix [of sub "x # a" y] by auto
    moreover from Cons.prems(2) i'(2) have "i' + length sub \<le> length a" by simp
    from Cons.IH [OF i'(1) this] have "find_sub sub a = Some i'" .
    ultimately show ?thesis using i'(2) by simp
  qed
qed

lemma rfind_sub_left:
  "rfind_sub sub (a @ y) = Some j \<Longrightarrow> j + length sub \<le> length a \<Longrightarrow> rfind_sub sub a = Some j"
proof (induction a arbitrary: j)
  case Nil
  then show ?case by simp
next
  case (Cons x a)
  show ?case
  proof (cases "rfind_sub sub (a @ y)")
    case (Some k)
    with Cons.prems(1) have j: "j = Suc k" by simp
    with Cons.prems(2) have "k + length sub \<le> length a" by simp
    from Cons.IH [OF Some this] j show ?thesis by simp
  next
    case None
    with Cons.prems(1) have j: "j = 0" and p: "prefix sub (x # a @ y)"
      by (auto split: if_splits)
    from j Cons.prems(2) have "length sub \<le> length (x # a)" by simp
    with p have q: "prefix sub (x # a)"
      using prefix_append_left [of sub "x # a" y] by simp
    have "rfind_sub sub a = None"
    proof (rule ccontr)
      assume "rfind_sub sub a \<noteq> None"
      then obtain k where "rfind_sub sub a = Some k" by auto
      from rfind_splits [OF this]
      have "a @ y = take k a @ sub @ (drop (k + length sub) a @ y)" by simp
      from rfind_sub_last [OF this] None show False by simp
    qed
    with q j show ?thesis by simp
  qed
qed

text \<open>
  The block found is the block between the first opening and the last closing tag, and a
  block that lies before or behind a stretch of the text is taken out of the part where
  it lies.
\<close>

lemma search_block_found:
  assumes "search_block tag s = Some (p, g, r)"
  shows "\<exists>i j. find_sub (open_tag tag) s = Some i \<and> rfind_sub (close_tag tag) s = Some j
           \<and> i + length (open_tag tag) \<le> j \<and> i \<le> length p
           \<and> length (p @ open_tag tag @ g) \<le> j"
proof -
  from search_block_splits [OF assms]
  have s: "s = p @ open_tag tag @ g @ close_tag tag @ r" .
  from find_sub_first [of s p "open_tag tag" "g @ close_tag tag @ r"] s
  obtain i where i: "find_sub (open_tag tag) s = Some i" "i \<le> length p" by auto
  from rfind_sub_last [of s "p @ open_tag tag @ g" "close_tag tag" r] s
  obtain j where j: "rfind_sub (close_tag tag) s = Some j" "length (p @ open_tag tag @ g) \<le> j"
    by auto
  from i j show ?thesis by auto
qed

lemma block_span_None:
  "block_span tag s = None \<longleftrightarrow> search_block tag s = None"
proof
  assume a: "block_span tag s = None"
  show "search_block tag s = None"
  proof (rule ccontr)
    assume "search_block tag s \<noteq> None"
    then obtain p g r where "search_block tag s = Some (p, g, r)" by auto
    from search_block_found [OF this] a show False
      by (auto simp: block_span_def)
  qed
next
  assume a: "search_block tag s = None"
  show "block_span tag s = None"
  proof (rule ccontr)
    assume "block_span tag s \<noteq> None"
    then obtain i j where "find_sub (open_tag tag) s = Some i"
      "rfind_sub (close_tag tag) s = Some j" "i + length (open_tag tag) \<le> j"
      by (auto simp: block_span_def split: option.splits if_splits)
    from search_block_first_last [OF this] a show False by simp
  qed
qed

lemma block_span_Some:
  assumes "block_span tag s = Some (i, e)"
  shows "\<exists>j. find_sub (open_tag tag) s = Some i \<and> rfind_sub (close_tag tag) s = Some j
           \<and> i + length (open_tag tag) \<le> j \<and> e = j + length (close_tag tag)"
  using assms by (auto simp: block_span_def split: option.splits if_splits)

lemma sub_block_None:
  "search_block tag s = None \<Longrightarrow> sub_block tag s = s"
  by (subst sub_block.simps) simp

lemma sub_block_outside:
  assumes "outside (block_span tag (a @ S @ b)) (length a) (length (a @ S))"
  shows "sub_block tag (a @ S @ b) = sub_block tag a @ S @ sub_block tag b"
proof (cases "block_span tag (a @ S @ b)")
  case None
  then have x: "search_block tag (a @ S @ b) = None" by (simp add: block_span_None)
  have "search_block tag a = None"
  proof (rule ccontr)
    assume "search_block tag a \<noteq> None"
    then obtain p g r where "search_block tag a = Some (p, g, r)" by auto
    from search_block_splits [OF this]
    have "a @ S @ b = p @ open_tag tag @ g @ close_tag tag @ (r @ S @ b)" by simp
    then have "\<exists>i j. find_sub (open_tag tag) (a @ S @ b) = Some i
        \<and> rfind_sub (close_tag tag) (a @ S @ b) = Some j \<and> i + length (open_tag tag) \<le> j"
      using find_sub_first [of "a @ S @ b" p "open_tag tag" "g @ close_tag tag @ r @ S @ b"]
        rfind_sub_last [of "a @ S @ b" "p @ open_tag tag @ g" "close_tag tag" "r @ S @ b"]
      by fastforce
    with None show False by (auto simp: block_span_def)
  qed
  moreover have "search_block tag b = None"
  proof (rule ccontr)
    assume "search_block tag b \<noteq> None"
    then obtain p g r where "search_block tag b = Some (p, g, r)" by auto
    from search_block_splits [OF this]
    have e: "a @ S @ b = (a @ S @ p) @ open_tag tag @ g @ close_tag tag @ r" by simp
    have "\<exists>i j. find_sub (open_tag tag) (a @ S @ b) = Some i
        \<and> rfind_sub (close_tag tag) (a @ S @ b) = Some j \<and> i + length (open_tag tag) \<le> j"
      using find_sub_first [of "a @ S @ b" "a @ S @ p" "open_tag tag" "g @ close_tag tag @ r"]
        rfind_sub_last [of "a @ S @ b" "a @ S @ p @ open_tag tag @ g" "close_tag tag" r] e
      by fastforce
    with None show False by (auto simp: block_span_def)
  qed
  ultimately show ?thesis using x by (simp add: sub_block_None del: sub_block.simps)
next
  case (Some ie)
  obtain i e where ie: "ie = (i, e)" by (cases ie)
  let ?x = "a @ S @ b" and ?o = "open_tag tag" and ?c = "close_tag tag"
  from block_span_Some [of tag ?x i e] Some ie obtain j where
    f: "find_sub ?o ?x = Some i" and r: "rfind_sub ?c ?x = Some j"
    and le: "i + length ?o \<le> j" and e: "e = j + length ?c" by auto
  have sx: "sub_block tag ?x = take i ?x @ drop e ?x"
    using sub_block_first_last [OF f r le] e by simp
  from assms Some ie have "e \<le> length a \<or> length (a @ S) \<le> i"
    by (simp add: outside_def)
  then show ?thesis
  proof
    assume ea: "e \<le> length a"
    with e le have fa: "find_sub ?o a = Some i"
      using find_sub_left [of ?o a "S @ b" i] f by simp
    from ea e have ra: "rfind_sub ?c a = Some j"
      using rfind_sub_left [of ?c a "S @ b" j] r by simp
    have sa: "sub_block tag a = take i a @ drop e a"
      using sub_block_first_last [OF fa ra le] e by simp
    have "search_block tag b = None"
    proof (rule ccontr)
      assume "search_block tag b \<noteq> None"
      then obtain p g r' where "search_block tag b = Some (p, g, r')" by auto
      from search_block_splits [OF this]
      have "?x = (a @ S @ p @ ?o @ g) @ ?c @ r'" by simp
      from rfind_sub_last [OF this] r have "length (a @ S @ p @ ?o @ g) \<le> j" by simp
      with ea e show False by (simp add: close_tag_def)
    qed
    then have sb: "sub_block tag b = b" by (rule sub_block_None)
    from ea e le have "i \<le> length a" by simp
    with sx sa sb ea show ?thesis by simp
  next
    assume ib: "length (a @ S) \<le> i"
    let ?n = "length (a @ S)"
    have d: "drop ?n ?x = b" by simp
    from find_sub_drop [OF f ib] d have fb: "find_sub ?o b = Some (i - ?n)" by simp
    from ib le have "?n \<le> j" by simp
    from rfind_sub_drop [OF r this] d have rb: "rfind_sub ?c b = Some (j - ?n)" by simp
    from ib le have le': "(i - ?n) + length ?o \<le> j - ?n" by simp
    have sb: "sub_block tag b = take (i - ?n) b @ drop (j - ?n + length ?c) b"
      by (rule sub_block_first_last [OF fb rb le'])
    have "search_block tag a = None"
    proof (rule ccontr)
      assume "search_block tag a \<noteq> None"
      then obtain p g r' where "search_block tag a = Some (p, g, r')" by auto
      from search_block_splits [OF this]
      have a: "a = p @ ?o @ g @ ?c @ r'" .
      then have "?x = p @ ?o @ (g @ ?c @ r' @ S @ b)" by simp
      from find_sub_first [OF this] f have "i \<le> length p" by simp
      with ib a show False by (simp add: open_tag_def)
    qed
    then have sa: "sub_block tag a = a" by (rule sub_block_None)
    from ib le have "?n \<le> j" by simp
    then have "drop e ?x = drop (j - ?n + length ?c) b"
      using e by simp
    moreover from ib have "take i ?x = a @ S @ take (i - ?n) b" by simp
    ultimately show ?thesis using sx sa sb by simp
  qed
qed

lemma once_position:
  assumes "at_most_once sub (a @ sub @ b)"
  shows "find_sub sub (a @ sub @ b) = Some (length a)"
    and "rfind_sub sub (a @ sub @ b) = Some (length a)"
proof -
  from find_sub_first [of "a @ sub @ b" a sub b]
  obtain i where i: "find_sub sub (a @ sub @ b) = Some i" "i \<le> length a" by auto
  from rfind_sub_last [of "a @ sub @ b" a sub b]
  obtain j where j: "rfind_sub sub (a @ sub @ b) = Some j" "length a \<le> j" by auto
  from assms i j have "i = j" by (simp add: at_most_once_def)
  with i j show "find_sub sub (a @ sub @ b) = Some (length a)"
    and "rfind_sub sub (a @ sub @ b) = Some (length a)" by auto
qed

lemma extra_infos_loop_step:
  "extra_infos_loop (tag # tags) (m, t) =
     (case block_fact tag t of
        Inl e \<Rightarrow> Inl e
      | Inr f \<Rightarrow> extra_infos_loop tags (m ++ f, sub_block tag t))"
proof (cases "search_block tag t")
  case None
  then show ?thesis
    by (simp add: block_fact_def sub_block_None del: sub_block.simps)
next
  case (Some pgr)
  then show ?thesis
    by (cases pgr) (simp add: block_fact_def del: sub_block.simps split: sum.splits)
qed

lemma score_block_single:
  assumes "at_most_once (open_tag ''score'') (a @ open_tag ''score'' @ inner @ close_tag ''score'' @ b)"
    and "at_most_once (close_tag ''score'') (a @ open_tag ''score'' @ inner @ close_tag ''score'' @ b)"
  shows "search_block ''score'' (a @ open_tag ''score'' @ inner @ close_tag ''score'' @ b)
           = Some (a, inner, b)"
    and "sub_block ''score'' (a @ open_tag ''score'' @ inner @ close_tag ''score'' @ b) = a @ b"
proof -
  let ?o = "open_tag ''score''" and ?c = "close_tag ''score''"
  let ?t = "a @ ?o @ inner @ ?c @ b"
  from once_position(1) [of ?o a "inner @ ?c @ b"] assms(1)
  have f: "find_sub ?o ?t = Some (length a)" by simp
  from once_position(2) [of ?c "a @ ?o @ inner" b] assms(2)
  have r: "rfind_sub ?c ?t = Some (length (a @ ?o @ inner))" by simp
  have le: "length a + length ?o \<le> length (a @ ?o @ inner)" by simp
  from search_block_first_last [OF f r le]
  show "search_block ''score'' ?t = Some (a, inner, b)" by simp
  from sub_block_first_last [OF f r le]
  show "sub_block ''score'' ?t = a @ b" by simp
qed


section \<open>The invariant of a session\<close>

lemma score_frame:
  "score s = Inr (v, s') \<Longrightarrow> s' = assign (\<lambda>a. a\<lparr>attr_score := Some v\<rparr>) s"
  by (cases s) (auto simp: score_def assign_def split: option.splits if_splits sum.splits)

lemma has_won_frame:
  "has_won s = Inr (v, s') \<Longrightarrow> s' = assign (\<lambda>a. a\<lparr>attr_has_won := Some v\<rparr>) s"
  by (cases s) (auto simp: has_won_def assign_def Let_def split: option.splits if_splits)

lemma has_lost_frame:
  "has_lost s = Inr (v, s') \<Longrightarrow> s' = assign (\<lambda>a. a\<lparr>attr_has_lost := Some v\<rparr>) s"
  by (cases s) (auto simp: has_lost_def assign_def Let_def split: option.splits if_splits)

lemma policy_commands_frame:
  "policy_commands s = Inr (v, s') \<Longrightarrow> s' = assign (\<lambda>a. a\<lparr>attr_policy_commands := Some v\<rparr>) s"
  by (cases s) (auto simp: policy_commands_def assign_def Let_def split: option.splits if_splits)

lemma admissible_commands_frame:
  "admissible_commands s = Inr (v, s')
    \<Longrightarrow> s' = assign (\<lambda>a. a\<lparr>attr_admissible_commands := Some v\<rparr>) s"
  by (cases s) (auto simp: admissible_commands_def assign_def Let_def split: option.splits if_splits)


lemma computed_score_eq:
  "computed_score a =
     (if attr_state_tracking a then
        (case attr_game_progression a of
           None \<Rightarrow> Inl (AttributeError ''_game_progression'')
         | Some gp \<Rightarrow> Inr (progression_score gp))
      else
        (case attr_extra_infos a of
           None \<Rightarrow> Inl (AttributeError ''_extra_infos'')
         | Some infos \<Rightarrow>
             (case infos ''score'' of
                None \<Rightarrow> Inl (ExtraInfosIsMissingError ''score'')
              | Some v \<Rightarrow> py_int v)))"
  by (simp add: computed_score_def score_def result_def split: option.splits sum.splits)

lemma computed_score_updates [simp]:
  "computed_score (a\<lparr>has_timeout := t\<rparr>) = computed_score a"
  "computed_score (a\<lparr>attr_score := x\<rparr>) = computed_score a"
  "computed_score (a\<lparr>attr_has_won := w\<rparr>) = computed_score a"
  "computed_score (a\<lparr>attr_has_lost := l\<rparr>) = computed_score a"
  "computed_score (a\<lparr>attr_policy_commands := p\<rparr>) = computed_score a"
  "computed_score (a\<lparr>attr_admissible_commands := c\<rparr>) = computed_score a"
  by (simp_all add: computed_score_eq)

lemma score_uncached:
  "attr_score (attrs s) = None \<Longrightarrow> result (score s) = computed_score (attrs s)"
  by (simp add: computed_score_eq score_def result_def split: option.splits sum.splits)

lemma score_cached:
  "attr_score (attrs s) = Some v \<Longrightarrow> score s = Inr (v, s)"
  by (simp add: score_def)


lemma invariant_initial: "init output g st cir = Inr s \<Longrightarrow> session_invariant g st cir s"
  by (auto simp: init_def session_invariant_def flags_kept_def live_def Let_def
      split: sum.splits prod.splits)

lemma live_updates [simp]:
  "live g (a\<lparr>has_timeout := t\<rparr>) = live g a"
  "live g (a\<lparr>attr_has_won := w\<rparr>) = live g a"
  "live g (a\<lparr>attr_has_lost := l\<rparr>) = live g a"
  "live g (a\<lparr>attr_policy_commands := p\<rparr>) = live g a"
  by (simp_all add: live_def)

lemma stored_updates [simp]:
  "stored (a\<lparr>has_timeout := t\<rparr>) = stored a"
  "stored a \<Longrightarrow> stored (a\<lparr>attr_score := Some v\<rparr>)"
  "stored a \<Longrightarrow> stored (a\<lparr>attr_has_won := Some w\<rparr>)"
  "stored a \<Longrightarrow> stored (a\<lparr>attr_has_lost := Some l\<rparr>)"
  "stored a \<Longrightarrow> stored (a\<lparr>attr_policy_commands := Some p\<rparr>)"
  "stored a \<Longrightarrow> stored (a\<lparr>attr_admissible_commands := Some c\<rparr>)"
  by (simp_all add: stored_def)

lemma flags_kept_updates [simp]:
  "flags_kept g st cir (assign (\<lambda>a. a\<lparr>has_timeout := t\<rparr>) s) = flags_kept g st cir s"
  "flags_kept g st cir (assign (\<lambda>a. a\<lparr>attr_score := x\<rparr>) s) = flags_kept g st cir s"
  "flags_kept g st cir (assign (\<lambda>a. a\<lparr>attr_has_won := w\<rparr>) s) = flags_kept g st cir s"
  "flags_kept g st cir (assign (\<lambda>a. a\<lparr>attr_has_lost := l\<rparr>) s) = flags_kept g st cir s"
  by (simp_all add: flags_kept_def assign_def)

lemma attrs_assign [simp]: "attrs (assign f s) = f (attrs s)"
  by (simp add: assign_def)

lemma previous_state_assign [simp]: "previous_state (assign f s) = previous_state s"
  by (simp add: assign_def)

lemma invariant_timeout:
  "session_invariant g st cir s
    \<Longrightarrow> session_invariant g st cir (assign (\<lambda>a. a\<lparr>has_timeout := b\<rparr>) s)"
  by (simp add: session_invariant_def)

lemma invariant_score:
  assumes "session_invariant g st cir s" and "score s = Inr (v, s')"
  shows "session_invariant g st cir s'"
proof -
  have s': "s' = assign (\<lambda>a. a\<lparr>attr_score := Some v\<rparr>) s"
    using assms(2) by (rule score_frame)
  have "live g (attrs s) \<Longrightarrow> live g ((attrs s)\<lparr>attr_score := Some v\<rparr>)"
  proof -
    assume lv: "live g (attrs s)"
    have "(attr_nb_moves (attrs s) = 0 \<and> v = 0) \<or> computed_score (attrs s) = Inr v"
    proof (cases "attr_score (attrs s)")
      case None
      from score_uncached [OF None] assms(2) show ?thesis by (simp add: result_def)
    next
      case (Some v0)
      with assms(2) have "v0 = v" by (simp add: score_def)
      with Some lv show ?thesis by (simp add: live_def)
    qed
    with lv show ?thesis by (simp add: live_def)
  qed
  with assms(1) show ?thesis
    unfolding s' by (auto simp: session_invariant_def)
qed

lemma invariant_has_won:
  "session_invariant g st cir s \<Longrightarrow> has_won s = Inr (v, s') \<Longrightarrow> session_invariant g st cir s'"
  by (drule has_won_frame) (auto simp: session_invariant_def)

lemma invariant_has_lost:
  "session_invariant g st cir s \<Longrightarrow> has_lost s = Inr (v, s') \<Longrightarrow> session_invariant g st cir s'"
  by (drule has_lost_frame) (auto simp: session_invariant_def)

lemma invariant_policy_commands:
  assumes "session_invariant g st cir s" and "policy_commands s = Inr (v, s')"
  shows "session_invariant g st cir s'"
proof -
  have s': "s' = assign (\<lambda>a. a\<lparr>attr_policy_commands := Some v\<rparr>) s"
    using assms(2) by (rule policy_commands_frame)
  have "cir \<and> quests g \<noteq> []"
    using assms
    by (auto simp: policy_commands_def session_invariant_def flags_kept_def
        split: option.splits if_splits)
  with assms(1) have "flags_kept g st cir s'"
    unfolding s' by (simp add: session_invariant_def flags_kept_def)
  with assms(1) show ?thesis
    unfolding s' by (auto simp: session_invariant_def)
qed

lemma invariant_admissible_commands:
  assumes "session_invariant g st cir s" and "admissible_commands s = Inr (v, s')"
  shows "session_invariant g st cir s'"
proof -
  have s': "s' = assign (\<lambda>a. a\<lparr>attr_admissible_commands := Some v\<rparr>) s"
    using assms(2) by (rule admissible_commands_frame)
  from assms have st: "st"
    by (auto simp: admissible_commands_def session_invariant_def flags_kept_def
        split: option.splits if_splits)
  with assms(1) have fk: "flags_kept g st cir s'"
    unfolding s' by (simp add: session_invariant_def flags_kept_def)
  have "live g (attrs s) \<Longrightarrow> live g ((attrs s)\<lparr>attr_admissible_commands := Some v\<rparr>)"
  proof -
    assume lv: "live g (attrs s)"
    then have "\<forall>gp. attr_game_progression (attrs s) = Some gp \<longrightarrow>
        v = sorted_list_of_set (set (gen_commands_from_actions g (valid_actions gp)))"
      using assms(2)
      by (auto simp: admissible_commands_def live_def Let_def split: option.splits if_splits)
    with lv show ?thesis by (auto simp: live_def)
  qed
  with assms(1) fk show ?thesis
    unfolding s' by (auto simp: session_invariant_def)
qed

lemma view_made:
  assumes "view s = Inr (pv, s1)"
  shows "attr_game (attrs s1) = attr_game (attrs s)
      \<and> attr_game_progression (attrs s1) = attr_game_progression (attrs s)
      \<and> attr_extra_infos (attrs s1) = attr_extra_infos (attrs s)
      \<and> attr_state_tracking (attrs s1) = attr_state_tracking (attrs s)
      \<and> attr_compute_intermediate_reward (attrs s1) = attr_compute_intermediate_reward (attrs s)
      \<and> attr_nb_moves (attrs s1) = attr_nb_moves (attrs s)"
    and "attr_state_tracking (attrs pv) = attr_state_tracking (attrs s)"
    and "attr_compute_intermediate_reward (attrs pv) = attr_compute_intermediate_reward (attrs s)"
    and "previous_state pv = previous_state s"
    and "stored (attrs pv)"
    and "attr_admissible_commands (attrs pv) \<noteq> None \<Longrightarrow> attr_state_tracking (attrs s)"
    and "attr_policy_commands (attrs pv) \<noteq> None \<Longrightarrow> attr_compute_intermediate_reward (attrs s)"
    and "attr_compute_intermediate_reward (attrs s) \<Longrightarrow> attr_policy_commands (attrs pv) \<noteq> None"
proof -
  from assms obtain sc a1 won a2 lost a3 adm a4 pol where
    r1: "score s = Inr (sc, a1)" and
    r2: "has_won a1 = Inr (won, a2)" and
    r3: "has_lost a2 = Inr (lost, a3)" and
    r4: "(if attr_state_tracking (attrs a3)
          then (case admissible_commands a3 of
                  Inl e \<Rightarrow> Inl e
                | Inr (c, s') \<Rightarrow> Inr (Some c, s'))
          else Inr (None, a3)) = Inr (adm, a4)" and
    r5: "(if attr_compute_intermediate_reward (attrs a4)
          then (case policy_commands a4 of
                  Inl e \<Rightarrow> Inl e
                | Inr (c, s') \<Rightarrow> Inr (Some c, s'))
          else Inr (None, a4)) = Inr (pol, s1)" and
    pv: "attr_compute_intermediate_reward (attrs pv) = attr_compute_intermediate_reward (attrs s1)"
        "attr_state_tracking (attrs pv) = attr_state_tracking (attrs s1)"
        "attr_policy_commands (attrs pv) = pol"
        "attr_admissible_commands (attrs pv) = adm"
        "attr_game (attrs pv) = None" "attr_extra_infos (attrs pv) = None"
        "attr_game_progression (attrs pv) = None"
        "attr_score (attrs pv) = Some sc" "attr_has_won (attrs pv) = Some won"
        "attr_has_lost (attrs pv) = Some lost"
        "previous_state pv = previous_state s1"
    by (auto simp: view_def split: sum.splits prod.splits)
  have k1: "a1 = assign (\<lambda>a. a\<lparr>attr_score := Some sc\<rparr>) s"
    by (rule score_frame [OF r1])
  have k2: "a2 = assign (\<lambda>a. a\<lparr>attr_has_won := Some won\<rparr>) a1"
    by (rule has_won_frame [OF r2])
  have k3: "a3 = assign (\<lambda>a. a\<lparr>attr_has_lost := Some lost\<rparr>) a2"
    by (rule has_lost_frame [OF r3])
  have k4: "(\<not> attr_state_tracking (attrs a3) \<and> adm = None \<and> a4 = a3)
      \<or> (attr_state_tracking (attrs a3)
          \<and> (\<exists>c. adm = Some c \<and> a4 = assign (\<lambda>a. a\<lparr>attr_admissible_commands := Some c\<rparr>) a3))"
    using r4 by (auto split: if_splits sum.splits dest!: admissible_commands_frame)
  have k5: "(\<not> attr_compute_intermediate_reward (attrs a4) \<and> pol = None \<and> s1 = a4)
      \<or> (attr_compute_intermediate_reward (attrs a4)
          \<and> (\<exists>c. pol = Some c \<and> s1 = assign (\<lambda>a. a\<lparr>attr_policy_commands := Some c\<rparr>) a4))"
    using r5 by (auto split: if_splits sum.splits dest!: policy_commands_frame)
  from k1 k2 k3 k4 k5 pv
  show "attr_game (attrs s1) = attr_game (attrs s)
      \<and> attr_game_progression (attrs s1) = attr_game_progression (attrs s)
      \<and> attr_extra_infos (attrs s1) = attr_extra_infos (attrs s)
      \<and> attr_state_tracking (attrs s1) = attr_state_tracking (attrs s)
      \<and> attr_compute_intermediate_reward (attrs s1) = attr_compute_intermediate_reward (attrs s)
      \<and> attr_nb_moves (attrs s1) = attr_nb_moves (attrs s)"
    by auto
  from k1 k2 k3 k4 k5 pv
  show "attr_state_tracking (attrs pv) = attr_state_tracking (attrs s)"
    and "attr_compute_intermediate_reward (attrs pv) = attr_compute_intermediate_reward (attrs s)"
    and "previous_state pv = previous_state s"
    by auto
  from k1 k2 k3 k4 k5 pv show "stored (attrs pv)"
    by (auto simp: stored_def)
  from k1 k2 k3 k4 k5 pv
  show "attr_admissible_commands (attrs pv) \<noteq> None \<Longrightarrow> attr_state_tracking (attrs s)"
    and "attr_policy_commands (attrs pv) \<noteq> None \<Longrightarrow> attr_compute_intermediate_reward (attrs s)"
    and "attr_compute_intermediate_reward (attrs s) \<Longrightarrow> attr_policy_commands (attrs pv) \<noteq> None"
    by auto
qed

lemma invariant_viewed:
  assumes "session_invariant g st cir s" and "view s = Inr (pv, s1)"
  shows "session_invariant g st cir pv"
proof -
  note k = view_made [OF assms(2)]
  from assms(1) have fk: "flags_kept g st cir s" by (simp add: session_invariant_def)
  have "flags_kept g st cir pv"
    unfolding flags_kept_def
  proof (intro conjI impI allI)
    show "attr_state_tracking (attrs pv) = st"
      using fk k(2) by (simp add: flags_kept_def)
    show "attr_compute_intermediate_reward (attrs pv) = (cir \<and> quests g \<noteq> [])"
      using fk k(3) by (simp add: flags_kept_def)
    show "st" if "attr_admissible_commands (attrs pv) \<noteq> None"
      using fk k(6) [OF that] by (simp add: flags_kept_def)
    show "cir" if "attr_policy_commands (attrs pv) \<noteq> None"
      using fk k(7) [OF that] by (simp add: flags_kept_def)
    show "quests g \<noteq> []" if "attr_policy_commands (attrs pv) \<noteq> None"
      using fk k(7) [OF that] by (simp add: flags_kept_def)
    show "attr_compute_intermediate_reward (attrs p) = attr_compute_intermediate_reward (attrs pv)"
      if "previous_state pv = Some p" for p
      using fk k(3,4) that by (simp add: flags_kept_def)
    show "attr_policy_commands (attrs p) \<noteq> None"
      if "previous_state pv = Some p" "attr_compute_intermediate_reward (attrs pv)" for p
      using fk k(3,4) that by (simp add: flags_kept_def)
  qed
  with k(5) show ?thesis by (simp add: session_invariant_def)
qed

lemma invariant_updated:
  assumes "session_invariant g st cir s" and "update s command output = Inr s'"
  shows "session_invariant g st cir s'"
proof -
  from assms(2) obtain pv s1 where v: "view s = Inr (pv, s1)"
    by (auto simp: update_def Let_def split: sum.splits prod.splits option.splits)
  note k = view_made [OF v]
  from assms(2) v obtain gp' infos' fb act out' where
    s': "s' = GlulxGameState
          ((base_update s1 command out')
             \<lparr>attr_objective := attr_objective (attrs s1),
              attr_max_score := attr_max_score (attrs s1),
              attr_game := attr_game (attrs s1),
              attr_game_progression := Some gp',
              attr_state_tracking := attr_state_tracking (attrs s1),
              attr_compute_intermediate_reward := attr_compute_intermediate_reward (attrs s1),
              attr_extra_infos := Some infos',
              attr_feedback := fb,
              attr_action := act\<rparr>)
          (Some pv)"
    and gm: "attr_game (attrs s1) \<noteq> None"
    by (auto simp: update_def Let_def split: sum.splits prod.splits option.splits)
  from gm k(1) have "\<not> stored (attrs s)" by (simp add: stored_def)
  with assms(1) have lv: "live g (attrs s)" and fk: "flags_kept g st cir s"
    by (simp_all add: session_invariant_def)
  from fk k(1,3,8) have "flags_kept g st cir s'"
    unfolding s' by (simp add: flags_kept_def base_update_def)
  moreover from lv k(1) have "live g (attrs s')"
    unfolding s' by (simp add: live_def base_update_def)
  ultimately show ?thesis by (simp add: session_invariant_def)
qed

lemma has_lost_cong:
  "attr_has_lost (attrs s) = attr_has_lost (attrs t)
    \<Longrightarrow> attr_compute_intermediate_reward (attrs s) = attr_compute_intermediate_reward (attrs t)
    \<Longrightarrow> attr_game_progression (attrs s) = attr_game_progression (attrs t)
    \<Longrightarrow> attr_feedback (attrs s) = attr_feedback (attrs t)
    \<Longrightarrow> result (has_lost s) = result (has_lost t)"
  by (simp add: has_lost_def result_def Let_def split: option.splits)

lemma policy_commands_cong:
  "attr_policy_commands (attrs s) = attr_policy_commands (attrs t)
    \<Longrightarrow> attr_compute_intermediate_reward (attrs s) = attr_compute_intermediate_reward (attrs t)
    \<Longrightarrow> attr_game_progression (attrs s) = attr_game_progression (attrs t)
    \<Longrightarrow> attr_game (attrs s) = attr_game (attrs t)
    \<Longrightarrow> result (policy_commands s) = result (policy_commands t)"
  by (simp add: policy_commands_def result_def Let_def split: option.splits)


lemma has_won_returns:
  "attr_game_progression (attrs s) \<noteq> None \<or> attr_has_won (attrs s) \<noteq> None
    \<Longrightarrow> \<exists>won s1. has_won s = Inr (won, s1)"
  by (auto simp: has_won_def Let_def split: option.splits)

lemma has_lost_returns:
  "attr_game_progression (attrs s) \<noteq> None \<or> attr_has_lost (attrs s) \<noteq> None
    \<Longrightarrow> \<exists>lost s1. has_lost s = Inr (lost, s1)"
  by (auto simp: has_lost_def Let_def split: option.splits)

lemma policy_commands_returns:
  "(attr_game_progression (attrs s) \<noteq> None \<and> attr_game (attrs s) \<noteq> None)
      \<or> attr_policy_commands (attrs s) \<noteq> None
    \<Longrightarrow> attr_compute_intermediate_reward (attrs s)
    \<Longrightarrow> \<exists>c s1. policy_commands s = Inr (c, s1)"
  by (auto simp: policy_commands_def Let_def split: option.splits)

lemma invariant_readable:
  assumes "session_invariant g st cir s"
  shows "attr_game_progression (attrs s) \<noteq> None \<or> attr_has_won (attrs s) \<noteq> None"
    and "attr_game_progression (attrs s) \<noteq> None \<or> attr_has_lost (attrs s) \<noteq> None"
    and "attr_compute_intermediate_reward (attrs s) \<Longrightarrow>
          (attr_game_progression (attrs s) \<noteq> None \<and> attr_game (attrs s) \<noteq> None)
          \<or> attr_policy_commands (attrs s) \<noteq> None"
  using assms by (auto simp: session_invariant_def live_def stored_def)

lemma policy_commands_cached:
  "attr_policy_commands (attrs p) = Some c \<Longrightarrow> policy_commands p = Inr (c, p)"
  by (simp add: policy_commands_def)

lemma result_Inr: "r = Inr (v, s) \<Longrightarrow> result r = Inr v"
  by (simp add: result_def)

lemma result_Inr_iff: "result r = Inr v \<longleftrightarrow> (\<exists>s. r = Inr (v, s))"
  by (cases r) (auto simp: result_def)


text \<open>What \<open>intermediate_reward\<close> does on a snapshot that satisfies the invariant.\<close>

lemma intermediate_reward_invariant:
  assumes i: "session_invariant g st cir s" and f: "attr_compute_intermediate_reward (attrs s)"
  shows "\<exists>won lost r s'. result (has_won s) = Inr won \<and> result (has_lost s) = Inr lost
      \<and> intermediate_reward s = Inr (r, s') \<and> session_invariant g st cir s'
      \<and> (won \<longrightarrow> r = 1)
      \<and> (\<not> won \<and> lost \<longrightarrow> r = - 1)
      \<and> (\<not> won \<and> \<not> lost \<and> previous_state s = None \<longrightarrow> r = 0)
      \<and> (\<forall>p. \<not> won \<and> \<not> lost \<and> previous_state s = Some p \<longrightarrow>
            (\<exists>pc c. result (policy_commands p) = Inr pc \<and> result (policy_commands s) = Inr c
               \<and> r = sgn (int (length pc) - int (length c))))"
proof -
  from has_won_returns [OF invariant_readable(1) [OF i]]
  obtain won s1 where w: "has_won s = Inr (won, s1)" by blast
  have s1: "s1 = assign (\<lambda>a. a\<lparr>attr_has_won := Some won\<rparr>) s" by (rule has_won_frame [OF w])
  have i1: "session_invariant g st cir s1" by (rule invariant_has_won [OF i w])
  from has_lost_returns [OF invariant_readable(2) [OF i1]]
  obtain lost s2 where l: "has_lost s1 = Inr (lost, s2)" by blast
  have s2: "s2 = assign (\<lambda>a. a\<lparr>attr_has_lost := Some lost\<rparr>) s1" by (rule has_lost_frame [OF l])
  have i2: "session_invariant g st cir s2" by (rule invariant_has_lost [OF i1 l])
  have "result (has_lost s) = result (has_lost s1)"
    by (rule has_lost_cong) (simp_all add: s1)
  with l have rl: "result (has_lost s) = Inr lost" by (simp add: result_def)
  have rw: "result (has_won s) = Inr won" using w by (simp add: result_def)
  have f2: "attr_compute_intermediate_reward (attrs s2)" using f by (simp add: s1 s2)
  have pr: "previous_state s2 = previous_state s" by (simp add: s1 s2)
  show ?thesis
  proof (cases "won \<or> lost \<or> previous_state s = None")
    case True
    then consider "won" | "\<not> won" "lost" | "\<not> won" "\<not> lost" "previous_state s = None" by auto
    then show ?thesis
    proof cases
      case 1
      with f w have "intermediate_reward s = Inr (1, s1)" by (simp add: intermediate_reward_def)
      with 1 rw rl i1 show ?thesis by auto
    next
      case 2
      with f w l have "intermediate_reward s = Inr (- 1, s2)" by (simp add: intermediate_reward_def)
      with 2 rw rl i2 show ?thesis by auto
    next
      case 3
      with f w l pr have "intermediate_reward s = Inr (0, s2)" by (simp add: intermediate_reward_def)
      with 3 rw rl i2 show ?thesis by auto
    qed
  next
    case False
    then obtain p where nw: "\<not> won" and nl: "\<not> lost" and p: "previous_state s = Some p" by auto
    from i p f obtain pc where pc: "attr_policy_commands (attrs p) = Some pc"
      by (auto simp: session_invariant_def flags_kept_def)
    have rp: "policy_commands p = Inr (pc, p)" by (rule policy_commands_cached [OF pc])
    have t: "GlulxGameState (attrs s2) (Some p) = s2"
      using pr p by (cases s2) simp
    from policy_commands_returns [OF invariant_readable(3) [OF i2 f2] f2]
    obtain c s3 where c: "policy_commands s2 = Inr (c, s3)" by blast
    have i3: "session_invariant g st cir s3" by (rule invariant_policy_commands [OF i2 c])
    have "result (policy_commands s) = result (policy_commands s2)"
      by (rule policy_commands_cong) (simp_all add: s1 s2)
    with c have rc: "result (policy_commands s) = Inr c" by (simp add: result_def)
    from f w l nw nl pr p rp c t
    have "intermediate_reward s = Inr (sgn (int (length pc) - int (length c)), s3)"
      by (simp add: intermediate_reward_def)
    moreover have "result (policy_commands p) = Inr pc" using rp by (simp add: result_def)
    ultimately show ?thesis using nw nl p rw rl rc i3 by auto
  qed
qed

lemma invariant_intermediate_reward:
  assumes "session_invariant g st cir s" and "intermediate_reward s = Inr (r, s')"
  shows "session_invariant g st cir s'"
proof -
  from assms(2) have "attr_compute_intermediate_reward (attrs s)"
    by (auto simp: intermediate_reward_def split: if_splits)
  from intermediate_reward_invariant [OF assms(1) this] assms(2) show ?thesis by auto
qed

lemma session_invariant_holds: "session g st cir s \<Longrightarrow> session_invariant g st cir s"
proof (induction rule: session.induct)
  case (initial out s)
  then show ?case by (rule invariant_initial)
next
  case (updated s command out s')
  then show ?case by (auto intro: invariant_updated)
next
  case (viewed s v s')
  then show ?case by (auto intro: invariant_viewed)
next
  case (timeout s b)
  then show ?case by (auto intro: invariant_timeout)
next
  case (read_score s sc s')
  then show ?case by (auto intro: invariant_score)
next
  case (read_has_won s w s')
  then show ?case by (auto intro: invariant_has_won)
next
  case (read_has_lost s l s')
  then show ?case by (auto intro: invariant_has_lost)
next
  case (read_policy_commands s c s')
  then show ?case by (auto intro: invariant_policy_commands)
next
  case (read_admissible_commands s c s')
  then show ?case by (auto intro: invariant_admissible_commands)
next
  case (read_intermediate_reward s r s')
  then show ?case by (auto intro: invariant_intermediate_reward)
qed

text \<open>Stored flags are returned as they are; what \<^verbatim>\<open>game_ended\<close> returns.\<close>

lemma has_won_cached: "attr_has_won (attrs s) = Some b \<Longrightarrow> has_won s = Inr (b, s)"
  by (simp add: has_won_def)

lemma has_lost_cached: "attr_has_lost (attrs s) = Some b \<Longrightarrow> has_lost s = Inr (b, s)"
  by (simp add: has_lost_def)

lemma game_ended_result:
  assumes "game_ended s = Inr (ended, s')"
  shows "\<exists>won lost. has_won s' = Inr (won, s') \<and> has_lost s' = Inr (lost, s')
      \<and> ended = (won \<or> lost \<or> has_timeout (attrs s'))
      \<and> has_timeout (attrs s') = has_timeout (attrs s)"
proof -
  from assms obtain won s1 lost where
    w: "has_won s = Inr (won, s1)" and l: "has_lost s1 = Inr (lost, s')"
    and e: "ended = (won \<or> lost \<or> has_timeout (attrs s'))"
    by (auto simp: game_ended_def split: sum.splits prod.splits)
  have s1: "s1 = assign (\<lambda>a. a\<lparr>attr_has_won := Some won\<rparr>) s" by (rule has_won_frame [OF w])
  have s': "s' = assign (\<lambda>a. a\<lparr>attr_has_lost := Some lost\<rparr>) s1" by (rule has_lost_frame [OF l])
  have "has_won s' = Inr (won, s')"
    by (rule has_won_cached) (simp add: s1 s' assign_def)
  moreover have "has_lost s' = Inr (lost, s')"
    by (rule has_lost_cached) (simp add: s' assign_def)
  moreover have "has_timeout (attrs s') = has_timeout (attrs s)"
    by (simp add: s1 s' assign_def)
  ultimately show ?thesis using e by blast
qed

lemma invariant_live:
  assumes "session_invariant g st cir s" and "attr_game_progression (attrs s) \<noteq> None"
  shows "live g (attrs s)" and "flags_kept g st cir s"
  using assms by (auto simp: session_invariant_def stored_def)

text \<open>The snapshots reached agree with their tracker and facts.\<close>

lemma agrees_updates [simp]:
  "agrees g st gp facts (a\<lparr>has_timeout := t\<rparr>) = agrees g st gp facts a"
  "agrees g st gp facts (a\<lparr>attr_has_won := w\<rparr>) = agrees g st gp facts a"
  "agrees g st gp facts (a\<lparr>attr_has_lost := l\<rparr>) = agrees g st gp facts a"
  "agrees g st gp facts (a\<lparr>attr_policy_commands := p\<rparr>) = agrees g st gp facts a"
  by (simp_all add: agrees_def)

lemma observed_score_computed:
  "attr_state_tracking a = st \<Longrightarrow> attr_game_progression a = Some gp
    \<Longrightarrow> attr_extra_infos a = Some facts \<Longrightarrow> computed_score a = observed_score st gp facts"
  by (simp add: computed_score_eq observed_score_def)

text \<open>What \<open>score\<close> and \<open>admissible_commands\<close> return on a snapshot that agrees.\<close>

lemma score_agrees:
  assumes i: "session_invariant g st cir s" and a: "agrees g st gp facts (attrs s)"
    and n: "0 < attr_nb_moves (attrs s)"
  shows "result (score s) = observed_score st gp facts"
proof (cases "attr_game (attrs s)")
  case None
  with i have "stored (attrs s)" by (auto simp: session_invariant_def live_def)
  then obtain v where v: "attr_score (attrs s) = Some v" by (auto simp: stored_def)
  with a n None have "observed_score st gp facts = Inr v" by (simp add: agrees_def)
  with score_cached [OF v] show ?thesis by (simp add: result_def)
next
  case (Some g')
  with i have lv: "live g (attrs s)" and fk: "flags_kept g st cir s"
    by (auto simp: session_invariant_def stored_def)
  from a Some have "attr_game_progression (attrs s) = Some gp" "attr_extra_infos (attrs s) = Some facts"
    by (simp_all add: agrees_def)
  with fk have c: "computed_score (attrs s) = observed_score st gp facts"
    by (simp add: observed_score_computed flags_kept_def)
  show ?thesis
  proof (cases "attr_score (attrs s)")
    case None
    from score_uncached [OF None] c show ?thesis by simp
  next
    case (Some v)
    with lv n have "computed_score (attrs s) = Inr v" by (auto simp: live_def)
    with score_cached [OF Some] c show ?thesis by (simp add: result_def)
  qed
qed

lemma admissible_commands_agrees:
  assumes i: "session_invariant g st cir s" and a: "agrees g st gp facts (attrs s)" and st: "st"
  shows "result (admissible_commands s)
           = Inr (sorted_list_of_set (set (gen_commands_from_actions g (valid_actions gp))))"
proof (cases "attr_game (attrs s)")
  case None
  with a st have "attr_admissible_commands (attrs s)
      = Some (sorted_list_of_set (set (gen_commands_from_actions g (valid_actions gp))))"
    by (simp add: agrees_def)
  then show ?thesis by (simp add: admissible_commands_def result_def)
next
  case (Some g')
  with i have lv: "live g (attrs s)" and fk: "flags_kept g st cir s"
    by (auto simp: session_invariant_def stored_def)
  from a Some have gp: "attr_game_progression (attrs s) = Some gp" by (simp add: agrees_def)
  show ?thesis
  proof (cases "attr_admissible_commands (attrs s)")
    case None
    with gp lv fk st show ?thesis
      by (simp add: admissible_commands_def live_def flags_kept_def result_def Let_def)
  next
    case (Some c)
    with gp lv have "c = sorted_list_of_set (set (gen_commands_from_actions g (valid_actions gp)))"
      by (simp add: live_def)
    with Some show ?thesis by (simp add: admissible_commands_def result_def)
  qed
qed

lemma admissible_commands_cong:
  "attr_admissible_commands (attrs s) = attr_admissible_commands (attrs t)
    \<Longrightarrow> attr_state_tracking (attrs s) = attr_state_tracking (attrs t)
    \<Longrightarrow> attr_game_progression (attrs s) = attr_game_progression (attrs t)
    \<Longrightarrow> attr_game (attrs s) = attr_game (attrs t)
    \<Longrightarrow> result (admissible_commands s) = result (admissible_commands t)"
  by (simp add: admissible_commands_def result_def Let_def split: option.splits)

text \<open>What a view holds of the snapshot it was made of.\<close>

lemma view_stores:
  assumes "view s = Inr (pv, s1)"
  shows "\<exists>sc. attr_score (attrs pv) = Some sc \<and> result (score s) = Inr sc"
    and "attr_state_tracking (attrs s) \<Longrightarrow>
          \<exists>c. attr_admissible_commands (attrs pv) = Some c \<and> result (admissible_commands s) = Inr c"
    and "attr_nb_moves (attrs pv) = attr_nb_moves (attrs s)"
    and "attr_game (attrs pv) = None"
proof -
  from assms obtain sc a1 won a2 lost a3 adm a4 pol where
    r1: "score s = Inr (sc, a1)" and
    r2: "has_won a1 = Inr (won, a2)" and
    r3: "has_lost a2 = Inr (lost, a3)" and
    r4: "(if attr_state_tracking (attrs a3)
          then (case admissible_commands a3 of
                  Inl e \<Rightarrow> Inl e
                | Inr (c, s') \<Rightarrow> Inr (Some c, s'))
          else Inr (None, a3)) = Inr (adm, a4)" and
    r5: "(if attr_compute_intermediate_reward (attrs a4)
          then (case policy_commands a4 of
                  Inl e \<Rightarrow> Inl e
                | Inr (c, s') \<Rightarrow> Inr (Some c, s'))
          else Inr (None, a4)) = Inr (pol, s1)" and
    pv: "attr_admissible_commands (attrs pv) = adm"
        "attr_game (attrs pv) = None"
        "attr_score (attrs pv) = Some sc"
        "attr_nb_moves (attrs pv) = attr_nb_moves (attrs s1)"
    by (auto simp: view_def split: sum.splits prod.splits)
  have k1: "a1 = assign (\<lambda>a. a\<lparr>attr_score := Some sc\<rparr>) s"
    by (rule score_frame [OF r1])
  have k2: "a2 = assign (\<lambda>a. a\<lparr>attr_has_won := Some won\<rparr>) a1"
    by (rule has_won_frame [OF r2])
  have k3: "a3 = assign (\<lambda>a. a\<lparr>attr_has_lost := Some lost\<rparr>) a2"
    by (rule has_lost_frame [OF r3])
  have k4: "(\<not> attr_state_tracking (attrs a3) \<and> adm = None \<and> a4 = a3)
      \<or> (attr_state_tracking (attrs a3)
          \<and> (\<exists>c. adm = Some c \<and> admissible_commands a3 = Inr (c, a4)
                \<and> a4 = assign (\<lambda>a. a\<lparr>attr_admissible_commands := Some c\<rparr>) a3))"
    using r4 by (auto split: if_splits sum.splits dest: admissible_commands_frame)
  have k5: "(\<not> attr_compute_intermediate_reward (attrs a4) \<and> pol = None \<and> s1 = a4)
      \<or> (attr_compute_intermediate_reward (attrs a4)
          \<and> (\<exists>c. pol = Some c \<and> s1 = assign (\<lambda>a. a\<lparr>attr_policy_commands := Some c\<rparr>) a4))"
    using r5 by (auto split: if_splits sum.splits dest!: policy_commands_frame)
  from r1 pv(3) show "\<exists>sc. attr_score (attrs pv) = Some sc \<and> result (score s) = Inr sc"
    by (simp add: result_def)
  from pv(2) show "attr_game (attrs pv) = None" .
  from k1 k2 k3 k4 k5 pv(4) show "attr_nb_moves (attrs pv) = attr_nb_moves (attrs s)"
    by auto
  show "\<exists>c. attr_admissible_commands (attrs pv) = Some c \<and> result (admissible_commands s) = Inr c"
    if t: "attr_state_tracking (attrs s)"
  proof -
    from t k1 k2 k3 have "attr_state_tracking (attrs a3)" by simp
    with k4 obtain c where c: "adm = Some c" "admissible_commands a3 = Inr (c, a4)" by auto
    have "result (admissible_commands s) = result (admissible_commands a3)"
      by (rule admissible_commands_cong) (simp_all add: k1 k2 k3)
    with c pv(1) show ?thesis by (simp add: result_def)
  qed
qed

lemma intermediate_reward_frame:
  assumes "intermediate_reward s = Inr (r, s')"
  shows "agrees g st gp facts (attrs s') = agrees g st gp facts (attrs s)"
proof -
  from assms obtain won s1 where w: "has_won s = Inr (won, s1)"
    by (auto simp: intermediate_reward_def split: if_splits sum.splits)
  have s1: "attrs s1 = (attrs s)\<lparr>attr_has_won := Some won\<rparr>"
    using has_won_frame [OF w] by simp
  show ?thesis
  proof (cases won)
    case True
    with assms w have "s' = s1" by (auto simp: intermediate_reward_def split: if_splits)
    with s1 show ?thesis by simp
  next
    case False
    with assms w obtain lost s2 where l: "has_lost s1 = Inr (lost, s2)"
      by (auto simp: intermediate_reward_def split: if_splits sum.splits)
    have s2: "attrs s2 = (attrs s)\<lparr>attr_has_won := Some won, attr_has_lost := Some lost\<rparr>"
      using has_lost_frame [OF l] s1 by simp
    show ?thesis
    proof (cases "lost \<or> previous_state s2 = None")
      case True
      with assms w l False have "s' = s2"
        by (auto simp: intermediate_reward_def split: if_splits option.splits)
      with s2 show ?thesis by simp
    next
      case F2: False
      then obtain p where p: "previous_state s2 = Some p" and nl: "\<not> lost" by auto
      with assms w l False obtain pc p' c where
        "policy_commands p = Inr (pc, p')"
        and c: "policy_commands (GlulxGameState (attrs s2) (Some p')) = Inr (c, s')"
        by (auto simp: intermediate_reward_def split: if_splits sum.splits)
      from policy_commands_frame [OF c]
      have "attrs s' = (attrs s2)\<lparr>attr_policy_commands := Some c\<rparr>" by simp
      with s2 show ?thesis by simp
    qed
  qed
qed

lemma reached_agrees:
  "reached g st cir s gp facts \<Longrightarrow> session g st cir s \<and> agrees g st gp facts (attrs s)"
proof (induction rule: reached.induct)
  case (reached_initial out s evs narrative facts feedback)
  have "session g st cir s" by (rule session.initial [OF reached_initial(1)])
  moreover from reached_initial have "agrees g st (new_progression g st) facts (attrs s)"
    by (auto simp: init_def agrees_def Let_def)
  ultimately show ?case by simp
next
  case (reached_updated s gp facts command out s' new_facts narrative evs feedback)
  then have se: "session g st cir s" and a: "agrees g st gp facts (attrs s)" by simp_all
  note u = reached_updated(2)
  from se have i: "session_invariant g st cir s" by (rule session_invariant_holds)
  from u obtain pv s1 where v: "view s = Inr (pv, s1)"
    by (auto simp: update_def Let_def split: sum.splits prod.splits option.splits)
  note k = view_made(1) [OF v]
  from u v have gm: "attr_game (attrs s1) \<noteq> None"
    by (auto simp: update_def Let_def split: sum.splits prod.splits option.splits)
  with k have gs: "attr_game (attrs s) \<noteq> None" by simp
  with i have lv: "live g (attrs s)" and fk: "flags_kept g st cir s"
    by (auto simp: session_invariant_def stored_def)
  from a gs have e: "attr_game_progression (attrs s) = Some gp"
    "attr_extra_infos (attrs s) = Some facts" by (simp_all add: agrees_def)
  from lv have gg: "attr_game (attrs s) = Some g" by (simp add: live_def)
  from fk have t: "attr_state_tracking (attrs s) = st" by (simp add: flags_kept_def)
  from u v k e gg t reached_updated(3,4)
  have "attr_game (attrs s') = Some g"
    "attr_game_progression (attrs s')
       = Some (if st then snd (track_events g evs (None, gp)) else gp)"
    "attr_extra_infos (attrs s') = Some (facts ++ new_facts)"
    by (auto simp: update_def Let_def base_update_def)
  then have "agrees g st (if st then snd (track_events g evs (None, gp)) else gp)
      (facts ++ new_facts) (attrs s')"
    by (simp add: agrees_def)
  with session.updated [OF se u] show ?case by simp
next
  case (reached_viewed s gp facts v s')
  then have se: "session g st cir s" and a: "agrees g st gp facts (attrs s)" by simp_all
  note w = reached_viewed(2)
  from se have i: "session_invariant g st cir s" by (rule session_invariant_holds)
  then have t: "attr_state_tracking (attrs s) = st"
    by (simp add: session_invariant_def flags_kept_def)
  note k = view_stores [OF w]
  from k(1) obtain sc where sc: "attr_score (attrs v) = Some sc" "result (score s) = Inr sc"
    by blast
  have "agrees g st gp facts (attrs v)"
    unfolding agrees_def
  proof (intro conjI impI allI)
    assume "attr_game (attrs v) \<noteq> None"
    with k(4) show "attr_game_progression (attrs v) = Some gp" by simp
  next
    assume "attr_game (attrs v) \<noteq> None"
    with k(4) show "attr_extra_infos (attrs v) = Some facts" by simp
  next
    assume st
    with t k(2) obtain c where c: "attr_admissible_commands (attrs v) = Some c"
      "result (admissible_commands s) = Inr c" by auto
    with admissible_commands_agrees [OF i a \<open>st\<close>]
    show "attr_admissible_commands (attrs v)
        = Some (sorted_list_of_set (set (gen_commands_from_actions g (valid_actions gp))))"
      by simp
  next
    fix x
    assume "0 < attr_nb_moves (attrs v)" and x: "attr_score (attrs v) = Some x"
    with k(3) have "0 < attr_nb_moves (attrs s)" by simp
    from score_agrees [OF i a this] sc x show "observed_score st gp facts = Inr x" by simp
  qed
  with session.viewed [OF se w] show ?case by simp
next
  case (reached_timeout s gp facts b)
  then show ?case by (simp add: session.timeout)
next
  case (reached_score s gp facts sc s')
  then have se: "session g st cir s" and a: "agrees g st gp facts (attrs s)" by simp_all
  note r = reached_score(2)
  from se have i: "session_invariant g st cir s" by (rule session_invariant_holds)
  have s': "s' = assign (\<lambda>a. a\<lparr>attr_score := Some sc\<rparr>) s" by (rule score_frame [OF r])
  have "agrees g st gp facts (attrs s')"
  proof (cases "attr_game (attrs s)")
    case None
    with i have "stored (attrs s)" by (auto simp: session_invariant_def live_def)
    then obtain v where v: "attr_score (attrs s) = Some v" by (auto simp: stored_def)
    with r have "v = sc" by (simp add: score_def)
    with v a None show ?thesis unfolding s' by (simp add: agrees_def)
  next
    case (Some g')
    with a show ?thesis unfolding s' by (simp add: agrees_def)
  qed
  with session.read_score [OF se r] show ?case by simp
next
  case (reached_has_won s gp facts w s')
  from has_won_frame [OF reached_has_won(2)] reached_has_won(3)
    session.read_has_won [OF _ reached_has_won(2)]
  show ?case by simp
next
  case (reached_has_lost s gp facts l s')
  from has_lost_frame [OF reached_has_lost(2)] reached_has_lost(3)
    session.read_has_lost [OF _ reached_has_lost(2)]
  show ?case by simp
next
  case (reached_policy_commands s gp facts c s')
  from policy_commands_frame [OF reached_policy_commands(2)] reached_policy_commands(3)
    session.read_policy_commands [OF _ reached_policy_commands(2)]
  show ?case by simp
next
  case (reached_admissible_commands s gp facts c s')
  then have se: "session g st cir s" and a: "agrees g st gp facts (attrs s)" by simp_all
  note r = reached_admissible_commands(2)
  from se have i: "session_invariant g st cir s" by (rule session_invariant_holds)
  have s': "s' = assign (\<lambda>a. a\<lparr>attr_admissible_commands := Some c\<rparr>) s"
    by (rule admissible_commands_frame [OF r])
  from i r have st: "st"
    by (auto simp: admissible_commands_def session_invariant_def flags_kept_def
        split: option.splits if_splits)
  from admissible_commands_agrees [OF i a st] r
  have "c = sorted_list_of_set (set (gen_commands_from_actions g (valid_actions gp)))"
    by (simp add: result_def)
  with a have "agrees g st gp facts (attrs s')"
    unfolding s' by (simp add: agrees_def)
  with session.read_admissible_commands [OF se r] show ?case by simp
next
  case (reached_intermediate_reward s gp facts r s')
  from intermediate_reward_frame [OF reached_intermediate_reward(2), of g st gp facts]
    reached_intermediate_reward(3)
    session.read_intermediate_reward [OF _ reached_intermediate_reward(2)]
  show ?case by simp
qed

lemma session_reached:
  "session g st cir s \<Longrightarrow> \<exists>gp facts. reached g st cir s gp facts"
proof (induction rule: session.induct)
  case (initial out s)
  then obtain evs narrative facts feedback where
    "detect_i7_events_debug_tags (strip_input_prompt_symbol out) = Inr (evs, narrative)"
    "detect_extra_infos narrative = Inr (facts, feedback)"
    by (auto simp: init_def Let_def split: sum.splits prod.splits)
  from reached_initial [OF initial this] show ?case by blast
next
  case (updated s command out s')
  then obtain gp facts where r: "reached g st cir s gp facts" by blast
  from updated(2) obtain new_facts narrative evs feedback where
    "detect_extra_infos (strip_input_prompt_symbol out) = Inr (new_facts, narrative)"
    "detect_i7_events_debug_tags narrative = Inr (evs, feedback)"
    by (auto simp: update_def Let_def split: sum.splits prod.splits option.splits)
  from reached_updated [OF r updated(2) this] show ?case by blast
next
  case (viewed s v s')
  then show ?case by (blast intro: reached_viewed)
next
  case (timeout s b)
  then show ?case by (blast intro: reached_timeout)
next
  case (read_score s sc s')
  then show ?case by (blast intro: reached_score)
next
  case (read_has_won s w s')
  then show ?case by (blast intro: reached_has_won)
next
  case (read_has_lost s l s')
  then show ?case by (blast intro: reached_has_lost)
next
  case (read_policy_commands s c s')
  then show ?case by (blast intro: reached_policy_commands)
next
  case (read_admissible_commands s c s')
  then show ?case by (blast intro: reached_admissible_commands)
next
  case (read_intermediate_reward s r s')
  then show ?case by (blast intro: reached_intermediate_reward)
qed

section \<open>The small game, evaluated\<close>


lemma demo_game_simps:
  "quests demo_game = [()]"
  "game_objective demo_game = ''Leave.''"
  "new_progression demo_game b = demo_progression"
  "progression_update demo_game gp action =
     (if action = ''open door''
      then gp\<lparr>valid_actions := [''go east'', ''look''], progression_score := 1,
              winning_policy := Some [''go east'']\<rparr>
      else gp)"
  "gen_commands_from_actions demo_game actions = actions"
  "detect_action demo_game i7_event actions =
     (if i7_event = ''opening door'' \<and> ''open door'' \<in> set actions
      then Some ''open door'' else None)"
  by (simp_all add: demo_game_def)

lemma demo_progression_simps:
  "valid_actions demo_progression = [''open door'', ''look'']"
  "completed demo_progression = False"
  "failed demo_progression = False"
  "progression_score demo_progression = 0"
  "winning_policy demo_progression = Some [''open door'', ''go east'']"
  "progression_max_score demo_progression = 1"
  by (simp_all add: demo_progression_def)

lemma demo_text_simps:
  "strip_input_prompt_symbol ''Hi'' = ''Hi''"
  "detect_i7_events_debug_tags ''Hi'' = Inr ([], ''Hi'')"
  "strip_input_prompt_symbol ''[opening door][opening door - succeeded]''
     = ''[opening door][opening door - succeeded]''"
  "detect_i7_events_debug_tags ''[opening door][opening door - succeeded]''
     = Inr ([''opening door''], [])"
  by code_simp+

lemma demo_infos_simps:
  "detect_extra_infos ''Hi'' = Inr (Map.empty, ''Hi'')"
  "detect_extra_infos ''[opening door][opening door - succeeded]''
     = Inr (Map.empty, ''[opening door][opening door - succeeded]'')"
  by (simp_all add: detect_extra_infos_def open_tag_def close_tag_def)

lemmas demo_simps =
  init_def update_def view_def score_def has_won_def has_lost_def policy_commands_def
  admissible_commands_def intermediate_reward_def game_ended_def assign_def base_update_def
  Let_def demo_game_simps demo_progression_simps demo_text_simps demo_infos_simps result_def

lemma demo_init: "init ''Hi'' demo_game True True = Inr demo_initial"
  unfolding demo_initial_def by (simp add: demo_simps)

lemma demo_update:
  "update demo_initial ''open door'' ''[opening door][opening door - succeeded]'' = Inr demo_moved"
  unfolding demo_moved_def demo_initial_def by (simp add: demo_simps)

lemma demo_session: "session demo_game True True demo_moved"
  by (rule session.updated [OF session.initial [OF demo_init] demo_update])

lemma demo_init_untracked: "init ''Hi'' demo_game False False = Inr demo_untracked"
  unfolding demo_untracked_def by (simp add: demo_simps)

lemma demo_score_text_simps:
  "strip_input_prompt_symbol ''<score>\<newline>7\<newline></score>'' = ''<score>\<newline>7\<newline></score>''"
  "detect_i7_events_debug_tags ''<score>\<newline>7\<newline></score>''
     = Inr ([], ''<score>\<newline>7\<newline></score>'')"
  "detect_i7_events_debug_tags ''7\<newline>'' = Inr ([], ''7\<newline>'')"
  "detect_i7_events_debug_tags [] = Inr ([], [])"
  "py_int ''7\<newline>'' = Inr 7"
  by code_simp+

lemma demo_score_infos:
  "detect_extra_infos ''<score>\<newline>7\<newline></score>'' = Inr ([''score'' \<mapsto> ''7\<newline>''], [])"
  by (simp add: detect_extra_infos_def open_tag_def close_tag_def NL_def demo_score_text_simps)

lemma demo_no_quests_simps:
  "quests demo_no_quests = []"
  "game_objective demo_no_quests = ''Leave.''"
  "new_progression demo_no_quests b = demo_progression"
  "gen_commands_from_actions demo_no_quests actions = actions"
  by (simp_all add: demo_no_quests_def demo_game_def)

lemma demo_init_questless: "init ''Hi'' demo_no_quests True True = Inr demo_questless"
  unfolding demo_questless_def by (simp add: demo_simps demo_no_quests_simps)

lemma demo_init_scored:
  "init ''<score>\<newline>7\<newline></score>'' demo_game False False = Inr demo_scored_initial"
  unfolding demo_scored_initial_def
  by (simp add: demo_simps demo_score_text_simps demo_score_infos)

lemma demo_update_scored:
  "update demo_untracked ''look'' ''<score>\<newline>7\<newline></score>'' = Inr demo_scored"
  unfolding demo_scored_def demo_untracked_def
  by (simp add: demo_simps demo_score_text_simps demo_score_infos)

lemma demo_update_unscored: "update demo_untracked ''look'' ''Hi'' = Inr demo_unscored"
  unfolding demo_unscored_def demo_untracked_def by (simp add: demo_simps)

lemma demo_transport_simps:
  "poll demo_transport n = (0 < n, n)"
  "communicate demo_transport n command = (Some ''*** The End ***'', n - 1)"
  "kill demo_transport n = 0"
  "cleanup_glulx demo_transport n = n"
  by (simp_all add: demo_transport_def)

lemma demo_end_text_simps:
  "strip ''look'' = ''look''"
  "replace ''*** The End ***'' (CHR 0x5C # ''033['') (ESC # ''['') = ''*** The End ***''"
  "strip_input_prompt_symbol ''*** The End ***'' = ''*** The End ***''"
  "detect_i7_events_debug_tags ''*** The End ***'' = Inr ([], ''*** The End ***'')"
  "contains ''*** The End ***'' ''*** The End ***'' = True"
  "contains ''*** You lost! ***'' ''*** The End ***'' = False"
  by code_simp+

lemma demo_end_infos:
  "detect_extra_infos ''*** The End ***'' = Inr (Map.empty, ''*** The End ***'')"
  by (simp add: detect_extra_infos_def open_tag_def close_tag_def)

lemmas demo_step_simps =
  step_def send_def game_running_def close_def demo_env_def demo_tracked_def
  demo_transport_simps demo_end_text_simps demo_end_infos demo_simps

lemma demo_step:
  "fst (step demo_transport demo_env ''look'') = Inr (demo_ended, 0, True)"
  unfolding demo_ended_def by (simp add: demo_step_simps)

lemma demo_step_timeout:
  "has_timeout (attrs demo_ended)" "result (has_won demo_ended) = Inr True"
  "result (has_lost demo_ended) = Inr False"
  unfolding demo_ended_def by (simp_all add: demo_step_simps)

lemma demo_step_after:
  "fst (game_running demo_transport demo_env)"
  "\<not> fst (game_running demo_transport (snd (step demo_transport demo_env ''look'')))"
  by (simp_all add: demo_step_simps)

lemma demo_view:
  "view demo_initial = Inr (the (previous_state demo_moved), snd (projr (view demo_initial)))"
  unfolding demo_moved_def demo_initial_def by (simp add: demo_simps)

lemma demo_view_session: "session demo_game True True (the (previous_state demo_moved))"
  by (rule session.viewed [OF session.initial [OF demo_init] demo_view])

lemma demo_view_reward:
  "attr_compute_intermediate_reward (attrs (the (previous_state demo_moved)))"
  "result (intermediate_reward (the (previous_state demo_moved))) = Inr 0"
  unfolding demo_moved_def demo_initial_def by (simp_all add: demo_simps)

lemma demo_mirror_simps:
  "quests demo_mirror = [()]"
  "game_objective demo_mirror = ''Leave.''"
  "new_progression demo_mirror b = demo_progression"
  "progression_update demo_mirror gp action =
     (if action = ''open door''
      then gp\<lparr>valid_actions := [''go east'', ''look''], progression_score := 1,
              winning_policy := Some [''go east'']\<rparr>
      else gp)"
  "gen_commands_from_actions demo_mirror actions = rev actions @ actions"
  "detect_action demo_mirror i7_event actions =
     (if i7_event = ''opening door'' \<and> ''open door'' \<in> set actions
      then Some ''open door'' else None)"
  by (simp_all add: demo_mirror_def demo_game_def)

lemma demo_track:
  "snd (track_events demo_game [''opening door''] (None, demo_progression)) = demo_opened"
  "snd (track_events demo_mirror [''opening door''] (None, demo_progression)) = demo_opened"
  by (simp_all add: demo_game_simps demo_mirror_simps demo_progression_simps demo_opened_def)

lemma demo_init_mirror: "init ''Hi'' demo_mirror True False = Inr demo_mirror_initial"
  unfolding demo_mirror_initial_def by (simp add: demo_simps demo_mirror_simps)

lemma demo_update_mirror:
  "update demo_mirror_initial ''open door'' ''[opening door][opening door - succeeded]''
     = Inr demo_mirror_moved"
  unfolding demo_mirror_moved_def demo_mirror_initial_def
  by (simp add: demo_simps demo_mirror_simps)

lemma demo_view_mirror:
  "view demo_mirror_initial
     = Inr (the (previous_state demo_mirror_moved), snd (projr (view demo_mirror_initial)))"
  unfolding demo_mirror_moved_def demo_mirror_initial_def
  by (simp add: demo_simps demo_mirror_simps)

lemma demo_update_carried: "update demo_scored ''look'' ''Hi'' = Inr demo_carried"
  unfolding demo_carried_def demo_scored_def demo_untracked_def
  by (simp add: demo_simps demo_score_text_simps demo_score_infos)

lemma demo_view_scored:
  "view demo_scored = Inr (the (previous_state demo_carried), snd (projr (view demo_scored)))"
  unfolding demo_carried_def demo_scored_def demo_untracked_def
  by (simp add: demo_simps demo_score_text_simps demo_score_infos)

lemma demo_reached_mirror:
  "reached demo_mirror True False demo_mirror_initial demo_progression Map.empty"
  "reached demo_mirror True False demo_mirror_moved demo_opened Map.empty"
  "reached demo_mirror True False (the (previous_state demo_mirror_moved)) demo_progression
     Map.empty"
proof -
  from reached_initial [OF demo_init_mirror, of "[]" "''Hi''" Map.empty "''Hi''"]
  show i: "reached demo_mirror True False demo_mirror_initial demo_progression Map.empty"
    by (simp add: demo_text_simps demo_infos_simps demo_mirror_simps)
  from reached_updated [OF i demo_update_mirror, of Map.empty
      "''[opening door][opening door - succeeded]''" "[''opening door'']" "[]"]
  show "reached demo_mirror True False demo_mirror_moved demo_opened Map.empty"
    by (simp add: demo_text_simps demo_infos_simps demo_game_simps demo_mirror_simps demo_track
        del: track_events.simps)
  from reached_viewed [OF i demo_view_mirror]
  show "reached demo_mirror True False (the (previous_state demo_mirror_moved)) demo_progression
     Map.empty" .
qed

lemma demo_reached_untracked:
  "reached demo_game False False demo_untracked demo_progression Map.empty"
  "reached demo_game False False demo_scored demo_progression [''score'' \<mapsto> ''7\<newline>'']"
  "reached demo_game False False demo_carried demo_progression [''score'' \<mapsto> ''7\<newline>'']"
  "reached demo_game False False (the (previous_state demo_carried)) demo_progression
     [''score'' \<mapsto> ''7\<newline>'']"
  "reached demo_game False False demo_unscored demo_progression Map.empty"
proof -
  from reached_initial [OF demo_init_untracked, of "[]" "''Hi''" Map.empty "''Hi''"]
  show i: "reached demo_game False False demo_untracked demo_progression Map.empty"
    by (simp add: demo_text_simps demo_infos_simps demo_game_simps)
  from reached_updated [OF i demo_update_scored, of "[''score'' \<mapsto> ''7\<newline>'']" "[]" "[]" "[]"]
  show s: "reached demo_game False False demo_scored demo_progression [''score'' \<mapsto> ''7\<newline>'']"
    by (simp add: demo_score_text_simps demo_score_infos)
  from reached_updated [OF s demo_update_carried, of Map.empty "''Hi''" "[]" "''Hi''"]
  show "reached demo_game False False demo_carried demo_progression [''score'' \<mapsto> ''7\<newline>'']"
    by (simp add: demo_text_simps demo_infos_simps)
  from reached_viewed [OF s demo_view_scored]
  show "reached demo_game False False (the (previous_state demo_carried)) demo_progression
     [''score'' \<mapsto> ''7\<newline>'']" .
  from reached_updated [OF i demo_update_unscored, of Map.empty "''Hi''" "[]" "''Hi''"]
  show "reached demo_game False False demo_unscored demo_progression Map.empty"
    by (simp add: demo_text_simps demo_infos_simps)
qed

lemma demo_reached_moved: "reached demo_game True True demo_moved demo_opened Map.empty"
proof -
  from reached_initial [OF demo_init, of "[]" "''Hi''" Map.empty "''Hi''"]
  have i: "reached demo_game True True demo_initial demo_progression Map.empty"
    by (simp add: demo_text_simps demo_infos_simps demo_game_simps)
  from reached_updated [OF i demo_update, of Map.empty
      "''[opening door][opening door - succeeded]''" "[''opening door'']" "[]"]
  show ?thesis
    by (simp add: demo_text_simps demo_infos_simps demo_game_simps demo_mirror_simps demo_track
        del: track_events.simps)
qed

section \<open>Claims about the event-tag scanner\<close>

text \<open>
  C2, as the specification states it, fails: in \<^verbatim>\<open>[a][b (c)][b (c) - succeeded]\<close> the
  loop records the success \<open>b (c)\<close> and ends with \<open>a\<close> still open, and the scanner
  returns an empty list and an empty text without an error, because the assertion is
  made on the success list after the names with a parenthesis have been dropped.
\<close>

theorem C2_subrule_success_counterexample:
  "scan_loop (findall_tags None ''[a][b (c)][b (c) - succeeded]'')
       ([], [], ''[a][b (c)][b (c) - succeeded]'') = Inr ([''b (c)''], [''a''], [])
   \<and> detect_i7_events_debug_tags ''[a][b (c)][b (c) - succeeded]'' = Inr ([], [])"
  by code_simp

text \<open>
  C2, amended: for every input text, when the loop ends with an open-tag stack that is not
  empty and a success list that is not empty once the names with a parenthesis are
  dropped (the list that would be returned), the scanner raises \<open>AssertionError\<close>; and
  the scan of \<^verbatim>\<open>[foo - succeeded]\<close>, where no \<open>foo\<close> is open, raises \<open>ValueError\<close>
  (from \<^verbatim>\<open>open_tags.remove\<close>) and returns nothing.
\<close>

theorem C2_unbalanced_success_is_fatal:
  "(scan_loop (findall_tags None text) ([], [], text) = Inr (matches, open_tags, text')
      \<and> filter no_paren matches \<noteq> [] \<and> open_tags \<noteq> []
    \<longrightarrow> detect_i7_events_debug_tags text = Inl AssertionError)
   \<and> detect_i7_events_debug_tags ''[foo - succeeded]'' = Inl ValueError"
proof
  show "scan_loop (findall_tags None text) ([], [], text) = Inr (matches, open_tags, text')
      \<and> filter no_paren matches \<noteq> [] \<and> open_tags \<noteq> []
    \<longrightarrow> detect_i7_events_debug_tags text = Inl AssertionError"
    by (simp add: detect_i7_events_debug_tags_def)
  show "detect_i7_events_debug_tags ''[foo - succeeded]'' = Inl ValueError"
    by code_simp
qed

theorem C2_unbalanced_success_is_fatal_witness:
  "scan_loop (findall_tags None ''[a][b][b - succeeded]'') ([], [], ''[a][b][b - succeeded]'')
     = Inr ([''b''], [''a''], [])
   \<and> filter no_paren [''b''] \<noteq> [] \<and> [''a''] \<noteq> []
   \<and> detect_i7_events_debug_tags ''[a][b][b - succeeded]'' = Inl AssertionError"
proof -
  have h: "scan_loop (findall_tags None ''[a][b][b - succeeded]'')
      ([], [], ''[a][b][b - succeeded]'') = Inr ([''b''], [''a''], [])"
    by code_simp
  have f: "filter no_paren [''b''] \<noteq> []"
    by (simp add: no_paren_def)
  from C2_unbalanced_success_is_fatal
    [of "''[a][b][b - succeeded]''" "[''b'']" "[''a'']" "[]"] h f
  show ?thesis by simp
qed

text \<open>
  C3, as the specification states it, fails. In \<^verbatim>\<open>[a][a - succeeded b]\<close> the second
  token does not end in the success marker, yet it closes \<open>a\<close> and \<open>a\<close> is reported:
  the code looks for the marker anywhere in the name. And the text returned for
  \<^verbatim>\<open>[x][[x]y]\<close> is \<^verbatim>\<open>[y]\<close>, which is a bracket token: the tokens are \<^verbatim>\<open>[x]\<close> and
  \<^verbatim>\<open>[[x]\<close>, and deleting every occurrence of the first leaves \<^verbatim>\<open>[y]\<close>, where the
  second does not occur.
\<close>

theorem C3_scanner_counterexample:
  "detect_i7_events_debug_tags ''[x][[x]y]'' = Inr ([], ''[y]'')
   \<and> findall_tags None ''[y]'' = [''[y]'']
   \<and> \<not> endswith ''a - succeeded b'' '' - succeeded''
   \<and> detect_i7_events_debug_tags ''[a][a - succeeded b]'' = Inr ([''a''], [])"
  by code_simp

text \<open>
  C3, amended: every input text has its bracket-delimited tokens, taken in text order (an
  opening bracket not preceded by the escape character, a name of one or more characters
  other than a closing bracket, a closing bracket), and what the scanner raises or
  reports is determined by their names, in that order. A name that contains the failure
  marker closes the first open event named by what stands before the marker, and records
  nothing; otherwise a name that contains the success marker closes the first open event
  named by what stands before it, and that base name is appended to the success list; a
  name with neither marker is appended to the open events. A closing with no open event
  of its name raises \<open>ValueError\<close>. Names with a parenthesis are dropped from the
  reported list and count in the balance like all others; a reported list that is not
  empty with an event still open raises \<open>AssertionError\<close>. Nothing is stated of the
  returned text.
\<close>

theorem C3_scanner_by_tokens:
  "(\<exists>names. tokens None text names)
   \<and> (tokens None text names \<longrightarrow>
        map_sum id fst (detect_i7_events_debug_tags text) =
          (let es = map classify names;
               events = filter no_paren (successes es)
           in (case balance es [] of
                 None \<Rightarrow> Inl ValueError
               | Some open_tags \<Rightarrow>
                   if events \<noteq> [] \<and> open_tags \<noteq> [] then Inl AssertionError
                   else Inr events)))"
proof
  from tokens_findall [of None "text"] show "\<exists>names. tokens None text names" by blast
  show "tokens None text names \<longrightarrow>
        map_sum id fst (detect_i7_events_debug_tags text) =
          (let es = map classify names;
               events = filter no_paren (successes es)
           in (case balance es [] of
                 None \<Rightarrow> Inl ValueError
               | Some open_tags \<Rightarrow>
                   if events \<noteq> [] \<and> open_tags \<noteq> [] then Inl AssertionError
                   else Inr events))"
  proof
    assume "tokens None text names"
    from tokens_unique [OF this]
    have n: "map (\<lambda>m. classify (tag_name m)) (findall_tags None text) = map classify names"
      by simp
    show "map_sum id fst (detect_i7_events_debug_tags text) =
          (let es = map classify names;
               events = filter no_paren (successes es)
           in (case balance es [] of
                 None \<Rightarrow> Inl ValueError
               | Some open_tags \<Rightarrow>
                   if events \<noteq> [] \<and> open_tags \<noteq> [] then Inl AssertionError
                   else Inr events))"
      by (simp add: detect_i7_events_debug_tags_def scan_loop_eq n Let_def split: option.splits)
  qed
qed

text \<open>
  An instance: a text with a token, a bracket behind the escape character, which is no
  token, a sub-rule that opens and closes with the marker inside its name, a token
  followed by a newline, and the closing of the first token.
\<close>

theorem C3_scanner_by_tokens_witness:
  "tokens None (''[a]'' @ [ESC] @ ''[b]x[b (c)][b (c) - succeeded b]\<newline>[a - succeeded]'')
     [''a'', ''b (c)'', ''b (c) - succeeded b'', ''a - succeeded'']
   \<and> map_sum id fst (detect_i7_events_debug_tags
         (''[a]'' @ [ESC] @ ''[b]x[b (c)][b (c) - succeeded b]\<newline>[a - succeeded]''))
       = Inr [''a'']"
proof -
  let ?t = "''[a]'' @ [ESC] @ ''[b]x[b (c)][b (c) - succeeded b]\<newline>[a - succeeded]''"
  let ?names = "[''a'', ''b (c)'', ''b (c) - succeeded b'', ''a - succeeded'']"
  have "map tag_name (findall_tags None ?t) = ?names"
    by code_simp
  with tokens_findall [of None ?t] have t: "tokens None ?t ?names"
    by simp
  have r: "(let es = map classify ?names;
                events = filter no_paren (successes es)
            in (case balance es [] of
                  None \<Rightarrow> Inl ValueError
                | Some open_tags \<Rightarrow>
                    if events \<noteq> [] \<and> open_tags \<noteq> [] then Inl AssertionError
                    else Inr events)) = Inr [''a'']"
    by code_simp
  from C3_scanner_by_tokens [of ?t ?names, THEN conjunct2, rule_format, OF t]
  have "map_sum id fst (detect_i7_events_debug_tags ?t) = Inr [''a'']"
    by (simp only: r)
  with t show ?thesis by blast
qed

section \<open>Claims about the side-channel blocks\<close>

text \<open>
  C8, as the specification states it, fails. A score block inside a description block is
  taken away with the description, and no fact \<open>score\<close> is extracted. And between the
  first opening tag and the last closing tag everything is the block: of two score blocks
  with the narrative \<open>A\<close> between them, the fact is the text from the first number to
  the second, closing and opening tags and \<open>A\<close> included, and \<open>A\<close> is gone from the text.
\<close>

theorem C8_score_block_counterexample:
  "map_sum id (\<lambda>(m, t). (m ''description'', m ''score'', t))
     (detect_extra_infos ''<description>\<newline><score>\<newline>7\<newline></score></description>'')
     = Inr (Some ''<score>\<newline>7\<newline></score>'', None, [])
   \<and> map_sum id (\<lambda>(m, t). (m ''score'', t))
       (detect_extra_infos ''<score>\<newline>1\<newline></score>A<score>\<newline>2\<newline></score>B'')
     = Inr (Some ''1\<newline></score>A<score>\<newline>2\<newline>'', ''B'')"
  by code_simp

text \<open>
  C8, amended: take a raw text made of a text \<open>pre\<close>, a score block (the opening tag with
  its newline, an inner text, the closing tag) and a text \<open>post\<close>. Suppose that every tag
  occurs at most once in the text in which it is looked for, that the description block,
  if there is one, lies wholly before or wholly behind the score block, and so does the
  inventory block in the text that is left when the description block is taken out. Then
  \<^verbatim>\<open>_detect_extra_infos\<close> returns the inner text of the score block after event-tag
  removal as the fact \<open>score\<close>, beside the facts of the description and inventory
  blocks, and as clean text \<open>pre\<close> followed by \<open>post\<close>, each without its description
  and inventory block; when the event-tag scan of an inner text raises, so does
  \<^verbatim>\<open>_detect_extra_infos\<close>. Nothing is stated of a score block inside another block, nor
  of a text in which a tag occurs twice.
\<close>

theorem C8_score_block:
  "text = pre @ open_tag ''score'' @ inner @ close_tag ''score'' @ post
   \<and> pre1 = sub_block ''description'' pre \<and> post1 = sub_block ''description'' post
   \<and> pre2 = sub_block ''inventory'' pre1 \<and> post2 = sub_block ''inventory'' post1
   \<and> text1 = pre1 @ open_tag ''score'' @ inner @ close_tag ''score'' @ post1
   \<and> text2 = pre2 @ open_tag ''score'' @ inner @ close_tag ''score'' @ post2
   \<and> at_most_once (open_tag ''description'') text \<and> at_most_once (close_tag ''description'') text
   \<and> outside (block_span ''description'' text) (length pre)
        (length (pre @ open_tag ''score'' @ inner @ close_tag ''score''))
   \<and> at_most_once (open_tag ''inventory'') text1 \<and> at_most_once (close_tag ''inventory'') text1
   \<and> outside (block_span ''inventory'' text1) (length pre1)
        (length (pre1 @ open_tag ''score'' @ inner @ close_tag ''score''))
   \<and> at_most_once (open_tag ''score'') text2 \<and> at_most_once (close_tag ''score'') text2
   \<longrightarrow> detect_extra_infos text =
         (case block_fact ''description'' text of
            Inl e \<Rightarrow> Inl e
          | Inr description \<Rightarrow>
              (case block_fact ''inventory'' text1 of
                 Inl e \<Rightarrow> Inl e
               | Inr inventory \<Rightarrow>
                   (case detect_i7_events_debug_tags inner of
                      Inl e \<Rightarrow> Inl e
                    | Inr (evs, cleaned) \<Rightarrow>
                        Inr ((description ++ inventory)(''score'' \<mapsto> cleaned), pre2 @ post2))))"
proof
  let ?S = "open_tag ''score'' @ inner @ close_tag ''score''"
  assume a: "text = pre @ open_tag ''score'' @ inner @ close_tag ''score'' @ post
   \<and> pre1 = sub_block ''description'' pre \<and> post1 = sub_block ''description'' post
   \<and> pre2 = sub_block ''inventory'' pre1 \<and> post2 = sub_block ''inventory'' post1
   \<and> text1 = pre1 @ open_tag ''score'' @ inner @ close_tag ''score'' @ post1
   \<and> text2 = pre2 @ open_tag ''score'' @ inner @ close_tag ''score'' @ post2
   \<and> at_most_once (open_tag ''description'') text \<and> at_most_once (close_tag ''description'') text
   \<and> outside (block_span ''description'' text) (length pre)
        (length (pre @ open_tag ''score'' @ inner @ close_tag ''score''))
   \<and> at_most_once (open_tag ''inventory'') text1 \<and> at_most_once (close_tag ''inventory'') text1
   \<and> outside (block_span ''inventory'' text1) (length pre1)
        (length (pre1 @ open_tag ''score'' @ inner @ close_tag ''score''))
   \<and> at_most_once (open_tag ''score'') text2 \<and> at_most_once (close_tag ''score'') text2"
  then have t0: "text = pre @ open_tag ''score'' @ inner @ close_tag ''score'' @ post"
    and t10: "text1 = pre1 @ open_tag ''score'' @ inner @ close_tag ''score'' @ post1"
    and t2: "text2 = pre2 @ open_tag ''score'' @ inner @ close_tag ''score'' @ post2"
    and p1: "pre1 = sub_block ''description'' pre" "post1 = sub_block ''description'' post"
    and p2: "pre2 = sub_block ''inventory'' pre1" "post2 = sub_block ''inventory'' post1"
    and od: "outside (block_span ''description'' text) (length pre) (length (pre @ ?S))"
    and oi: "outside (block_span ''inventory'' text1) (length pre1) (length (pre1 @ ?S))"
    and os: "at_most_once (open_tag ''score'') text2" "at_most_once (close_tag ''score'') text2"
    by blast+
  from t0 have t: "text = pre @ ?S @ post" by simp
  from t10 have t1: "text1 = pre1 @ ?S @ post1" by simp
  from sub_block_outside [of "''description''" pre ?S post] od t p1 t1
  have d: "sub_block ''description'' text = text1" by (simp del: sub_block.simps)
  from sub_block_outside [of "''inventory''" pre1 ?S post1] oi t1 p2 t2
  have i: "sub_block ''inventory'' text1 = text2" by (simp del: sub_block.simps)
  from score_block_single [of pre2 inner post2] os t2
  have s: "search_block ''score'' text2 = Some (pre2, inner, post2)"
    and b: "sub_block ''score'' text2 = pre2 @ post2" by (simp_all del: sub_block.simps)
  have sf: "block_fact ''score'' text2 =
      (case detect_i7_events_debug_tags inner of
         Inl e \<Rightarrow> Inl e | Inr (evs, cleaned) \<Rightarrow> Inr [''score'' \<mapsto> cleaned])"
    by (simp add: block_fact_def s)
  show "detect_extra_infos text =
         (case block_fact ''description'' text of
            Inl e \<Rightarrow> Inl e
          | Inr description \<Rightarrow>
              (case block_fact ''inventory'' text1 of
                 Inl e \<Rightarrow> Inl e
               | Inr inventory \<Rightarrow>
                   (case detect_i7_events_debug_tags inner of
                      Inl e \<Rightarrow> Inl e
                    | Inr (evs, cleaned) \<Rightarrow>
                        Inr ((description ++ inventory)(''score'' \<mapsto> cleaned), pre2 @ post2))))"
    unfolding detect_extra_infos_def extra_infos_loop_step
    by (simp add: d i b sf del: sub_block.simps split: sum.splits)
qed

text \<open>
  An instance: a description block, narrative, the score block with an event tag in it,
  an inventory block and narrative again.
\<close>

theorem C8_score_block_witness:
  "sub_block ''description'' ''<description>\<newline>A room.\<newline></description>It is dark.'' = ''It is dark.''
   \<and> sub_block ''inventory'' ''<inventory>\<newline>Nothing.\<newline></inventory>You see a room.'' = ''You see a room.''
   \<and> block_span ''description''
         ''<description>\<newline>A room.\<newline></description>It is dark.<score>\<newline>[x]7\<newline></score><inventory>\<newline>Nothing.\<newline></inventory>You see a room.''
       = Some (0, 36)
   \<and> block_span ''inventory''
         ''It is dark.<score>\<newline>[x]7\<newline></score><inventory>\<newline>Nothing.\<newline></inventory>You see a room.''
       = Some (32, 65)
   \<and> detect_i7_events_debug_tags ''[x]7\<newline>'' = Inr ([], ''7\<newline>'')
   \<and> detect_extra_infos
         ''<description>\<newline>A room.\<newline></description>It is dark.<score>\<newline>[x]7\<newline></score><inventory>\<newline>Nothing.\<newline></inventory>You see a room.''
       = Inr ([''description'' \<mapsto> ''A room.\<newline>'', ''inventory'' \<mapsto> ''Nothing.\<newline>'',
               ''score'' \<mapsto> ''7\<newline>''], ''It is dark.You see a room.'')"
proof -
  let ?pre = "''<description>\<newline>A room.\<newline></description>It is dark.''"
  let ?post = "''<inventory>\<newline>Nothing.\<newline></inventory>You see a room.''"
  let ?inner = "''[x]7\<newline>''"
  let ?t = "''<description>\<newline>A room.\<newline></description>It is dark.<score>\<newline>[x]7\<newline></score><inventory>\<newline>Nothing.\<newline></inventory>You see a room.''"
  let ?t1 = "''It is dark.<score>\<newline>[x]7\<newline></score><inventory>\<newline>Nothing.\<newline></inventory>You see a room.''"
  let ?t2 = "''It is dark.<score>\<newline>[x]7\<newline></score>You see a room.''"
  have h1: "?t = ?pre @ open_tag ''score'' @ ?inner @ close_tag ''score'' @ ?post"
    by code_simp
  have h2: "''It is dark.'' = sub_block ''description'' ?pre"
    by code_simp
  have h3: "?post = sub_block ''description'' ?post"
    by code_simp
  have h4: "''It is dark.'' = sub_block ''inventory'' ''It is dark.''"
    by code_simp
  have h5: "''You see a room.'' = sub_block ''inventory'' ?post"
    by code_simp
  have h6: "?t1 = ''It is dark.'' @ open_tag ''score'' @ ?inner @ close_tag ''score'' @ ?post"
    by code_simp
  have h7: "?t2 = ''It is dark.'' @ open_tag ''score'' @ ?inner @ close_tag ''score''
      @ ''You see a room.''"
    by code_simp
  have h8: "at_most_once (open_tag ''description'') ?t"
    by code_simp
  have h9: "at_most_once (close_tag ''description'') ?t"
    by code_simp
  have h10: "outside (block_span ''description'' ?t) (length ?pre)
      (length (?pre @ open_tag ''score'' @ ?inner @ close_tag ''score''))"
    by code_simp
  have h11: "at_most_once (open_tag ''inventory'') ?t1"
    by code_simp
  have h12: "at_most_once (close_tag ''inventory'') ?t1"
    by code_simp
  have h13: "outside (block_span ''inventory'' ?t1) (length ''It is dark.'')
      (length (''It is dark.'' @ open_tag ''score'' @ ?inner @ close_tag ''score''))"
    by code_simp
  have h14: "at_most_once (open_tag ''score'') ?t2"
    by code_simp
  have h15: "at_most_once (close_tag ''score'') ?t2"
    by code_simp
  have f1: "block_fact ''description'' ?t = Inr [''description'' \<mapsto> ''A room.\<newline>'']"
  proof -
    have "search_block ''description'' ?t
        = Some ([], ''A room.\<newline>'', ''It is dark.<score>\<newline>[x]7\<newline></score><inventory>\<newline>Nothing.\<newline></inventory>You see a room.'')"
      by code_simp
    moreover have "detect_i7_events_debug_tags ''A room.\<newline>'' = Inr ([], ''A room.\<newline>'')"
      by code_simp
    ultimately show ?thesis by (simp add: block_fact_def)
  qed
  have f2: "block_fact ''inventory'' ?t1 = Inr [''inventory'' \<mapsto> ''Nothing.\<newline>'']"
  proof -
    have "search_block ''inventory'' ?t1
        = Some (''It is dark.<score>\<newline>[x]7\<newline></score>'', ''Nothing.\<newline>'', ''You see a room.'')"
      by code_simp
    moreover have "detect_i7_events_debug_tags ''Nothing.\<newline>'' = Inr ([], ''Nothing.\<newline>'')"
      by code_simp
    ultimately show ?thesis by (simp add: block_fact_def)
  qed
  have f3: "detect_i7_events_debug_tags ?inner = Inr ([], ''7\<newline>'')"
    by code_simp
  have s1: "block_span ''description'' ?t = Some (0, 36)"
    by code_simp
  have s2: "block_span ''inventory'' ?t1 = Some (32, 65)"
    by code_simp
  from C8_score_block [of ?t ?pre ?inner ?post "''It is dark.''" ?post "''It is dark.''"
      "''You see a room.''" ?t1 ?t2, rule_format,
      OF conjI [OF h1 conjI [OF h2 conjI [OF h3 conjI [OF h4 conjI [OF h5 conjI [OF h6
         conjI [OF h7 conjI [OF h8 conjI [OF h9 conjI [OF h10 conjI [OF h11 conjI [OF h12
         conjI [OF h13 conjI [OF h14 h15]]]]]]]]]]]]]]]
  have "detect_extra_infos ?t
      = Inr ([''description'' \<mapsto> ''A room.\<newline>'', ''inventory'' \<mapsto> ''Nothing.\<newline>'',
              ''score'' \<mapsto> ''7\<newline>''], ''It is dark.You see a room.'')"
    by (simp only: f1 f2 f3 sum.case prod.case) simp
  with h2 h5 s1 s2 f3 show ?thesis by simp
qed

section \<open>Claims about the turn snapshot\<close>

text \<open>
  C1: for every snapshot of a session with the intermediate reward enabled (the views
  behind \<^verbatim>\<open>previous_state\<close> included), \<^verbatim>\<open>intermediate_reward\<close> returns, and it
  returns 1 when \<^verbatim>\<open>has_won\<close> is true, otherwise
  -1 when \<^verbatim>\<open>has_lost\<close> is true, otherwise 0 when there is no previous snapshot, otherwise
  the sign of the length of the previous snapshot's \<^verbatim>\<open>policy_commands\<close> minus the length
  of this snapshot's; so the value is one of -1, 0 and 1. On every snapshot with the flag
  off the access raises \<open>OraclePolicyIsRequiredError\<close>.
\<close>

theorem C1_intermediate_reward:
  "(session g st cir s \<and> attr_compute_intermediate_reward (attrs s) \<longrightarrow>
      (\<exists>won lost r.
          result (has_won s) = Inr won \<and> result (has_lost s) = Inr lost
          \<and> result (intermediate_reward s) = Inr r
          \<and> r \<in> {- 1, 0, 1}
          \<and> (won \<longrightarrow> r = 1)
          \<and> (\<not> won \<and> lost \<longrightarrow> r = - 1)
          \<and> (\<not> won \<and> \<not> lost \<and> previous_state s = None \<longrightarrow> r = 0)
          \<and> (\<forall>p. \<not> won \<and> \<not> lost \<and> previous_state s = Some p \<longrightarrow>
                (\<exists>pc c. result (policy_commands p) = Inr pc
                   \<and> result (policy_commands s) = Inr c
                   \<and> r = sgn (int (length pc) - int (length c))))))
   \<and> (\<not> attr_compute_intermediate_reward (attrs s) \<longrightarrow>
        intermediate_reward s = Inl (OraclePolicyIsRequiredError ''intermediate_reward''))"
proof (intro conjI impI)
  assume "session g st cir s \<and> attr_compute_intermediate_reward (attrs s)"
  then have i: "session_invariant g st cir s" and f: "attr_compute_intermediate_reward (attrs s)"
    by (simp_all add: session_invariant_holds)
  from intermediate_reward_invariant [OF i f] obtain won lost r s' where
    h: "result (has_won s) = Inr won" "result (has_lost s) = Inr lost"
       "intermediate_reward s = Inr (r, s')"
       "won \<longrightarrow> r = 1" "\<not> won \<and> lost \<longrightarrow> r = - 1"
       "\<not> won \<and> \<not> lost \<and> previous_state s = None \<longrightarrow> r = 0"
       "\<forall>p. \<not> won \<and> \<not> lost \<and> previous_state s = Some p \<longrightarrow>
            (\<exists>pc c. result (policy_commands p) = Inr pc \<and> result (policy_commands s) = Inr c
               \<and> r = sgn (int (length pc) - int (length c)))"
    by blast
  have "r \<in> {- 1, 0, 1}"
  proof (cases "won \<or> lost \<or> previous_state s = None")
    case True
    with h(4,5,6) show ?thesis by auto
  next
    case False
    then obtain p where "\<not> won" "\<not> lost" "previous_state s = Some p" by auto
    with h(7) obtain pc c :: "string list" where "r = sgn (int (length pc) - int (length c))"
      by blast
    then show ?thesis by (auto simp: sgn_if)
  qed
  moreover have "result (intermediate_reward s) = Inr r"
    using h(3) by (simp add: result_def)
  ultimately show "\<exists>won lost r.
          result (has_won s) = Inr won \<and> result (has_lost s) = Inr lost
          \<and> result (intermediate_reward s) = Inr r
          \<and> r \<in> {- 1, 0, 1}
          \<and> (won \<longrightarrow> r = 1)
          \<and> (\<not> won \<and> lost \<longrightarrow> r = - 1)
          \<and> (\<not> won \<and> \<not> lost \<and> previous_state s = None \<longrightarrow> r = 0)
          \<and> (\<forall>p. \<not> won \<and> \<not> lost \<and> previous_state s = Some p \<longrightarrow>
                (\<exists>pc c. result (policy_commands p) = Inr pc
                   \<and> result (policy_commands s) = Inr c
                   \<and> r = sgn (int (length pc) - int (length c))))"
    using h(1,2,4,5,6,7) by blast
next
  assume "\<not> attr_compute_intermediate_reward (attrs s)"
  then show "intermediate_reward s = Inl (OraclePolicyIsRequiredError ''intermediate_reward'')"
    by (simp add: intermediate_reward_def)
qed

text \<open>
  An instance: after the door is opened in the small game the policy has gone from two
  commands to one, and the reward is 1; the reward of the view of the initial snapshot,
  which has no previous snapshot, is 0.
\<close>

theorem C1_intermediate_reward_witness:
  "session demo_game True True demo_moved
   \<and> attr_compute_intermediate_reward (attrs demo_moved)
   \<and> result (has_won demo_moved) = Inr False
   \<and> result (has_lost demo_moved) = Inr False
   \<and> map_option (\<lambda>p. result (policy_commands p)) (previous_state demo_moved)
       = Some (Inr [''open door'', ''go east''])
   \<and> result (policy_commands demo_moved) = Inr [''go east'']
   \<and> result (intermediate_reward demo_moved) = Inr 1
   \<and> session demo_game True True (the (previous_state demo_moved))
   \<and> result (intermediate_reward (the (previous_state demo_moved))) = Inr 0
   \<and> intermediate_reward (assign (\<lambda>a. a\<lparr>attr_compute_intermediate_reward := False\<rparr>) demo_moved)
       = Inl (OraclePolicyIsRequiredError ''intermediate_reward'')"
proof -
  have f: "attr_compute_intermediate_reward (attrs demo_moved)"
    unfolding demo_moved_def demo_initial_def by (simp add: demo_simps)
  have v: "result (has_won demo_moved) = Inr False" "result (has_lost demo_moved) = Inr False"
    "map_option (\<lambda>p. result (policy_commands p)) (previous_state demo_moved)
       = Some (Inr [''open door'', ''go east''])"
    "result (policy_commands demo_moved) = Inr [''go east'']"
    unfolding demo_moved_def demo_initial_def by (simp_all add: demo_simps)
  from C1_intermediate_reward [of demo_game True True demo_moved] demo_session f
  obtain won lost r where
    h: "result (has_won demo_moved) = Inr won" "result (has_lost demo_moved) = Inr lost"
       "result (intermediate_reward demo_moved) = Inr r"
       "\<forall>p. \<not> won \<and> \<not> lost \<and> previous_state demo_moved = Some p \<longrightarrow>
            (\<exists>pc c. result (policy_commands p) = Inr pc
               \<and> result (policy_commands demo_moved) = Inr c
               \<and> r = sgn (int (length pc) - int (length c)))"
    by blast
  from h(1,2) v(1,2) have nw: "\<not> won" "\<not> lost" by simp_all
  from v(3) obtain p where p: "previous_state demo_moved = Some p"
    "result (policy_commands p) = Inr [''open door'', ''go east'']" by auto
  with h(4) nw v(4) have "r = 1" by auto
  with h(3) have "result (intermediate_reward demo_moved) = Inr 1" by simp
  moreover have "intermediate_reward
      (assign (\<lambda>a. a\<lparr>attr_compute_intermediate_reward := False\<rparr>) demo_moved)
       = Inl (OraclePolicyIsRequiredError ''intermediate_reward'')"
    using C1_intermediate_reward
      [of demo_game True True "assign (\<lambda>a. a\<lparr>attr_compute_intermediate_reward := False\<rparr>) demo_moved"]
    by (simp add: assign_def)
  ultimately show ?thesis
    using demo_session f v demo_view_session demo_view_reward(2) by simp
qed

text \<open>
  C5: every snapshot of a session is reached with a tracker, which for a snapshot that
  holds a tracker is the one it holds and for a view (the snapshots behind
  \<^verbatim>\<open>previous_state\<close>) the one of the snapshot it was made of. On every snapshot of a
  session with state tracking \<^verbatim>\<open>admissible_commands\<close> returns the list of the commands
  rendered from the actions that are valid in that tracker, without duplicates and
  sorted; on any snapshot a read that returns leaves an object on which the next read
  returns the same list in the same order; and on every snapshot of a session without
  state tracking the access raises \<open>StateTrackingIsRequiredError\<close>.
\<close>

theorem C5_admissible_commands:
  "(session g st cir s \<longrightarrow> (\<exists>gp facts. reached g st cir s gp facts))
   \<and> (reached g st cir s gp facts \<and> attr_game_progression (attrs s) \<noteq> None \<longrightarrow>
        attr_game_progression (attrs s) = Some gp)
   \<and> (reached g st cir s gp facts \<and> st \<longrightarrow>
        (\<exists>c. result (admissible_commands s) = Inr c
           \<and> c = sorted_list_of_set (set (gen_commands_from_actions g (valid_actions gp)))
           \<and> sorted c \<and> distinct c
           \<and> set c = set (gen_commands_from_actions g (valid_actions gp))))
   \<and> (admissible_commands s = Inr (c1, s1) \<longrightarrow> admissible_commands s1 = Inr (c1, s1))
   \<and> (session g False cir s \<longrightarrow>
        admissible_commands s = Inl (StateTrackingIsRequiredError ''admissible_commands''))"
proof (intro conjI impI)
  assume "session g st cir s"
  then show "\<exists>gp facts. reached g st cir s gp facts" by (rule session_reached)
next
  assume a: "reached g st cir s gp facts \<and> attr_game_progression (attrs s) \<noteq> None"
  then have r: "reached g st cir s gp facts" by blast
  from reached_agrees [OF r]
  have se: "session g st cir s" and ag: "agrees g st gp facts (attrs s)" by blast+
  from se have "session_invariant g st cir s" by (rule session_invariant_holds)
  with a have "attr_game (attrs s) \<noteq> None"
    by (auto simp: session_invariant_def live_def stored_def)
  with ag show "attr_game_progression (attrs s) = Some gp" by (simp add: agrees_def)
next
  assume a: "reached g st cir s gp facts \<and> st"
  then have r: "reached g st cir s gp facts" and st: "st" by blast+
  from reached_agrees [OF r]
  have se: "session g st cir s" and ag: "agrees g st gp facts (attrs s)" by blast+
  from se have i: "session_invariant g st cir s" by (rule session_invariant_holds)
  from admissible_commands_agrees [OF i ag st]
  show "\<exists>c. result (admissible_commands s) = Inr c
         \<and> c = sorted_list_of_set (set (gen_commands_from_actions g (valid_actions gp)))
         \<and> sorted c \<and> distinct c
         \<and> set c = set (gen_commands_from_actions g (valid_actions gp))"
    by simp
next
  assume r: "admissible_commands s = Inr (c1, s1)"
  have "s1 = assign (\<lambda>a. a\<lparr>attr_admissible_commands := Some c1\<rparr>) s"
    by (rule admissible_commands_frame [OF r])
  then show "admissible_commands s1 = Inr (c1, s1)"
    by (simp add: admissible_commands_def assign_def)
next
  assume "session g False cir s"
  then have "session_invariant g False cir s" by (rule session_invariant_holds)
  then have "attr_admissible_commands (attrs s) = None" "\<not> attr_state_tracking (attrs s)"
    by (auto simp: session_invariant_def flags_kept_def)
  then show "admissible_commands s = Inl (StateTrackingIsRequiredError ''admissible_commands'')"
    by (simp add: admissible_commands_def)
qed

text \<open>
  An instance: in the game that renders every action twice, the renderings after the door
  is opened are \<open>look\<close>, \<open>go east\<close>, \<open>go east\<close>, \<open>look\<close>, and the list is
  \<open>go east\<close>, \<open>look\<close>, on the first read and on the second; the previous snapshot, a
  view without a tracker, has the list of the initial snapshot.
\<close>

theorem C5_admissible_commands_witness:
  "reached demo_mirror True False demo_mirror_moved demo_opened Map.empty
   \<and> attr_game_progression (attrs demo_mirror_moved) = Some demo_opened
   \<and> gen_commands_from_actions demo_mirror (valid_actions demo_opened)
       = [''look'', ''go east'', ''go east'', ''look'']
   \<and> result (admissible_commands demo_mirror_moved) = Inr [''go east'', ''look'']
   \<and> result (admissible_commands (snd (projr (admissible_commands demo_mirror_moved))))
       = Inr [''go east'', ''look'']
   \<and> reached demo_mirror True False (the (previous_state demo_mirror_moved)) demo_progression
       Map.empty
   \<and> attr_game_progression (attrs (the (previous_state demo_mirror_moved))) = None
   \<and> gen_commands_from_actions demo_mirror (valid_actions demo_progression)
       = [''look'', ''open door'', ''open door'', ''look'']
   \<and> result (admissible_commands (the (previous_state demo_mirror_moved)))
       = Inr [''look'', ''open door'']
   \<and> session demo_game False False demo_untracked
   \<and> admissible_commands demo_untracked
       = Inl (StateTrackingIsRequiredError ''admissible_commands'')"
proof -
  note tracker = C5_admissible_commands [THEN conjunct2, THEN conjunct1, rule_format]
    and listed = C5_admissible_commands [THEN conjunct2, THEN conjunct2, THEN conjunct1, rule_format]
    and again = C5_admissible_commands
      [THEN conjunct2, THEN conjunct2, THEN conjunct2, THEN conjunct1, rule_format]
    and without = C5_admissible_commands
      [THEN conjunct2, THEN conjunct2, THEN conjunct2, THEN conjunct2, rule_format]
  have g1: "gen_commands_from_actions demo_mirror (valid_actions demo_opened)
       = [''look'', ''go east'', ''go east'', ''look'']"
    by (simp add: demo_mirror_simps demo_opened_def)
  have g2: "gen_commands_from_actions demo_mirror (valid_actions demo_progression)
       = [''look'', ''open door'', ''open door'', ''look'']"
    by (simp add: demo_mirror_simps demo_progression_simps)
  have srt: "sorted_list_of_set (set [''look'', ''go east'', ''go east'', ''look''])
       = [''go east'', ''look'']"
    "sorted_list_of_set (set [''look'', ''open door'', ''open door'', ''look''])
       = [''look'', ''open door'']"
    by code_simp+
  have n: "attr_game_progression (attrs demo_mirror_moved) \<noteq> None"
    "attr_game_progression (attrs (the (previous_state demo_mirror_moved))) = None"
    unfolding demo_mirror_moved_def demo_mirror_initial_def
    by (simp_all add: demo_simps demo_mirror_simps)
  have t: "attr_game_progression (attrs demo_mirror_moved) = Some demo_opened"
    by (rule tracker [OF conjI [OF demo_reached_mirror(2) n(1)]])
  from listed [OF conjI [OF demo_reached_mirror(2) TrueI]]
  have r: "result (admissible_commands demo_mirror_moved) = Inr [''go east'', ''look'']"
    by (simp only: g1 srt) simp
  then obtain s1 where s1: "admissible_commands demo_mirror_moved = Inr ([''go east'', ''look''], s1)"
    by (auto simp: result_Inr_iff)
  have "admissible_commands s1 = Inr ([''go east'', ''look''], s1)"
    by (rule again [OF s1])
  with s1 have twice:
    "result (admissible_commands (snd (projr (admissible_commands demo_mirror_moved))))
       = Inr [''go east'', ''look'']"
    by (simp add: result_def)
  from listed [OF conjI [OF demo_reached_mirror(3) TrueI]]
  have p: "result (admissible_commands (the (previous_state demo_mirror_moved)))
       = Inr [''look'', ''open door'']"
    by (simp only: g2 srt) simp
  have u: "session demo_game False False demo_untracked"
    by (rule session.initial [OF demo_init_untracked])
  have e: "admissible_commands demo_untracked
       = Inl (StateTrackingIsRequiredError ''admissible_commands'')"
    by (rule without [OF u])
  from demo_reached_mirror(2,3) t g1 r twice n(2) g2 p u e show ?thesis by blast
qed

text \<open>
  C6, as the specification states it, fails on the initial snapshot: with state tracking
  off and the start-of-game text holding a score block of 7, the fact \<open>score\<close> is
  observed and parses to 7, and \<^verbatim>\<open>score\<close> returns the 0 that \<^verbatim>\<open>init\<close> stored.
\<close>

theorem C6_initial_score_counterexample:
  "init ''<score>\<newline>7\<newline></score>'' demo_game False False = Inr demo_scored_initial
   \<and> \<not> attr_state_tracking (attrs demo_scored_initial)
   \<and> map_option (\<lambda>infos. infos ''score'') (attr_extra_infos (attrs demo_scored_initial))
       = Some (Some ''7\<newline>'')
   \<and> py_int ''7\<newline>'' = Inr 7
   \<and> result (score demo_scored_initial) = Inr 0"
proof -
  have "\<not> attr_state_tracking (attrs demo_scored_initial)"
    "map_option (\<lambda>infos. infos ''score'') (attr_extra_infos (attrs demo_scored_initial))
       = Some (Some ''7\<newline>'')"
    "result (score demo_scored_initial) = Inr 0"
    unfolding demo_scored_initial_def
    by (simp_all add: demo_simps demo_score_text_simps demo_score_infos)
  with demo_init_scored demo_score_text_simps(5) show ?thesis by blast
qed

text \<open>
  C6, amended: every snapshot of a session is reached with a tracker and with the facts
  observed so far, those of the start-of-game text overridden turn by turn by those of
  the outputs (for a view, those of the snapshot it was made of). On every such snapshot
  after the first move, \<^verbatim>\<open>score\<close> returns the score of the tracker when state tracking
  is on; otherwise it returns the fact \<open>score\<close> read by \<^verbatim>\<open>int\<close> (a \<open>ValueError\<close> when
  the text is not an integer), and raises \<open>ExtraInfosIsMissingError\<close> when no text of
  the session so far held that fact. The initial snapshot and its views are excluded:
  \<^verbatim>\<open>init\<close> stores 0 as the score.
\<close>

theorem C6_score_after_update:
  "(session g st cir s \<longrightarrow> (\<exists>gp facts. reached g st cir s gp facts))
   \<and> (reached g st cir s gp facts \<and> attr_extra_infos (attrs s) \<noteq> None \<longrightarrow>
        attr_extra_infos (attrs s) = Some facts \<and> attr_game_progression (attrs s) = Some gp)
   \<and> (reached g st cir s gp facts \<and> 0 < attr_nb_moves (attrs s) \<longrightarrow>
        result (score s) =
          (if st then Inr (progression_score gp)
           else (case facts ''score'' of
                   None \<Rightarrow> Inl (ExtraInfosIsMissingError ''score'')
                 | Some v \<Rightarrow> py_int v)))"
proof (intro conjI impI)
  assume "session g st cir s"
  then show "\<exists>gp facts. reached g st cir s gp facts" by (rule session_reached)
next
  assume a: "reached g st cir s gp facts \<and> attr_extra_infos (attrs s) \<noteq> None"
  then have r: "reached g st cir s gp facts" by blast
  from reached_agrees [OF r]
  have se: "session g st cir s" and ag: "agrees g st gp facts (attrs s)" by blast+
  from se have "session_invariant g st cir s" by (rule session_invariant_holds)
  with a have "attr_game (attrs s) \<noteq> None"
    by (auto simp: session_invariant_def live_def stored_def)
  with ag show "attr_extra_infos (attrs s) = Some facts"
    and "attr_game_progression (attrs s) = Some gp" by (simp_all add: agrees_def)
next
  assume a: "reached g st cir s gp facts \<and> 0 < attr_nb_moves (attrs s)"
  then have r: "reached g st cir s gp facts" and n: "0 < attr_nb_moves (attrs s)" by blast+
  from reached_agrees [OF r]
  have se: "session g st cir s" and ag: "agrees g st gp facts (attrs s)" by blast+
  from se have i: "session_invariant g st cir s" by (rule session_invariant_holds)
  from score_agrees [OF i ag n]
  show "result (score s) =
          (if st then Inr (progression_score gp)
           else (case facts ''score'' of
                   None \<Rightarrow> Inl (ExtraInfosIsMissingError ''score'')
                 | Some v \<Rightarrow> py_int v))"
    by (simp add: observed_score_def)
qed

text \<open>
  An instance: without state tracking, a score block of 7 arrives with the first command
  and none with the second; the snapshot after the second command and its previous
  snapshot both have the score 7. When no output held a score block the access raises,
  and with state tracking the score is that of the tracker.
\<close>

theorem C6_score_after_update_witness:
  "reached demo_game False False demo_scored demo_progression [''score'' \<mapsto> ''7\<newline>'']
   \<and> update demo_scored ''look'' ''Hi'' = Inr demo_carried
   \<and> detect_extra_infos (strip_input_prompt_symbol ''Hi'') = Inr (Map.empty, ''Hi'')
   \<and> reached demo_game False False demo_carried demo_progression [''score'' \<mapsto> ''7\<newline>'']
   \<and> 0 < attr_nb_moves (attrs demo_carried)
   \<and> result (score demo_carried) = Inr 7
   \<and> reached demo_game False False (the (previous_state demo_carried)) demo_progression
       [''score'' \<mapsto> ''7\<newline>'']
   \<and> attr_extra_infos (attrs (the (previous_state demo_carried))) = None
   \<and> result (score (the (previous_state demo_carried))) = Inr 7
   \<and> reached demo_game False False demo_unscored demo_progression Map.empty
   \<and> result (score demo_unscored) = Inl (ExtraInfosIsMissingError ''score'')
   \<and> reached demo_game True True demo_moved demo_opened Map.empty
   \<and> progression_score demo_opened = 1
   \<and> result (score demo_moved) = Inr 1"
proof -
  note c6 = C6_score_after_update [THEN conjunct2, THEN conjunct2, rule_format, OF conjI]
  have n: "0 < attr_nb_moves (attrs demo_carried)"
    "0 < attr_nb_moves (attrs (the (previous_state demo_carried)))"
    "attr_extra_infos (attrs (the (previous_state demo_carried))) = None"
    unfolding demo_carried_def demo_scored_def demo_untracked_def
    by (simp_all add: demo_simps demo_score_text_simps demo_score_infos)
  have m: "0 < attr_nb_moves (attrs demo_unscored)"
    unfolding demo_unscored_def demo_untracked_def by (simp add: demo_simps)
  have k: "0 < attr_nb_moves (attrs demo_moved)"
    unfolding demo_moved_def demo_initial_def by (simp add: demo_simps)
  have h: "detect_extra_infos (strip_input_prompt_symbol ''Hi'') = Inr (Map.empty, ''Hi'')"
    by (simp add: demo_text_simps demo_infos_simps)
  have o: "progression_score demo_opened = 1"
    by (simp add: demo_opened_def)
  from c6 [OF demo_reached_untracked(3) n(1)]
  have r1: "result (score demo_carried) = Inr 7"
    by (simp add: demo_score_text_simps)
  from c6 [OF demo_reached_untracked(4) n(2)]
  have r2: "result (score (the (previous_state demo_carried))) = Inr 7"
    by (simp add: demo_score_text_simps)
  from c6 [OF demo_reached_untracked(5) m]
  have r3: "result (score demo_unscored) = Inl (ExtraInfosIsMissingError ''score'')"
    by simp
  from c6 [OF demo_reached_moved k]
  have r4: "result (score demo_moved) = Inr 1"
    by (simp add: o)
  from demo_reached_untracked(2,3,4,5) demo_update_carried h n(1,3) r1 r2 r3 demo_reached_moved
    o r4
  show ?thesis by blast
qed

text \<open>
  C9: on the snapshot that \<^verbatim>\<open>init\<close> builds the score attribute is 0 whatever the flags
  and the facts are, so \<^verbatim>\<open>score\<close> returns 0 and does not raise.
\<close>

theorem C9_initial_score:
  "init output g st cir = Inr s \<longrightarrow> attr_score (attrs s) = Some 0 \<and> score s = Inr (0, s)"
  by (auto simp: init_def score_def Let_def split: sum.splits prod.splits)

theorem C9_initial_score_witness:
  "init ''Hi'' demo_game False False = Inr demo_untracked
   \<and> \<not> attr_state_tracking (attrs demo_untracked)
   \<and> map_option (\<lambda>infos. infos ''score'') (attr_extra_infos (attrs demo_untracked)) = Some None
   \<and> score demo_untracked = Inr (0, demo_untracked)"
proof -
  have "\<not> attr_state_tracking (attrs demo_untracked)"
    "map_option (\<lambda>infos. infos ''score'') (attr_extra_infos (attrs demo_untracked)) = Some None"
    unfolding demo_untracked_def by (simp_all add: demo_simps)
  with C9_initial_score [of "''Hi''" demo_game False False demo_untracked] demo_init_untracked
  show ?thesis by simp
qed

text \<open>
  C10: for every game with an empty quest list, on every snapshot of a session on it (the
  one that \<^verbatim>\<open>init\<close> builds, whatever the argument, and those made from it) the reward
  flag is off, and \<^verbatim>\<open>intermediate_reward\<close> and \<^verbatim>\<open>policy_commands\<close> raise
  \<open>OraclePolicyIsRequiredError\<close>.
\<close>

theorem C10_no_quests_no_reward:
  "quests g = [] \<and> session g st cir s
   \<longrightarrow> \<not> attr_compute_intermediate_reward (attrs s)
       \<and> intermediate_reward s = Inl (OraclePolicyIsRequiredError ''intermediate_reward'')
       \<and> policy_commands s = Inl (OraclePolicyIsRequiredError ''policy_commands'')"
proof
  assume a: "quests g = [] \<and> session g st cir s"
  then have "session g st cir s" by blast
  then have i: "session_invariant g st cir s" by (rule session_invariant_holds)
  with a have f: "\<not> attr_compute_intermediate_reward (attrs s)"
    and p: "attr_policy_commands (attrs s) = None"
    by (auto simp: session_invariant_def flags_kept_def)
  from f have "intermediate_reward s = Inl (OraclePolicyIsRequiredError ''intermediate_reward'')"
    by (simp add: intermediate_reward_def)
  moreover from f p have "policy_commands s = Inl (OraclePolicyIsRequiredError ''policy_commands'')"
    by (simp add: policy_commands_def)
  ultimately show "\<not> attr_compute_intermediate_reward (attrs s)
       \<and> intermediate_reward s = Inl (OraclePolicyIsRequiredError ''intermediate_reward'')
       \<and> policy_commands s = Inl (OraclePolicyIsRequiredError ''policy_commands'')"
    using f by blast
qed

theorem C10_no_quests_no_reward_witness:
  "quests demo_no_quests = []
   \<and> init ''Hi'' demo_no_quests True True = Inr demo_questless
   \<and> session demo_no_quests True True demo_questless
   \<and> \<not> attr_compute_intermediate_reward (attrs demo_questless)
   \<and> intermediate_reward demo_questless = Inl (OraclePolicyIsRequiredError ''intermediate_reward'')
   \<and> policy_commands demo_questless = Inl (OraclePolicyIsRequiredError ''policy_commands'')"
proof -
  have s: "session demo_no_quests True True demo_questless"
    by (rule session.initial [OF demo_init_questless])
  from C10_no_quests_no_reward [rule_format, OF conjI, OF demo_no_quests_simps(1) s]
    demo_no_quests_simps(1) demo_init_questless s
  show ?thesis by blast
qed

section \<open>Claims about the session driver\<close>

text \<open>
  C4, as the specification states it, fails in its second half: \<^verbatim>\<open>step\<close> assigns
  \<^verbatim>\<open>has_timeout = not self.game_running\<close> without a look at the banners. When the
  interpreter answers with the winning banner and exits, the snapshot that \<^verbatim>\<open>step\<close>
  returns has \<^verbatim>\<open>has_won\<close> and \<^verbatim>\<open>has_timeout\<close> both true.
\<close>

theorem C4_timeout_with_win_counterexample:
  "fst (step demo_transport demo_env ''look'') = Inr (demo_ended, 0, True)
   \<and> result (has_won demo_ended) = Inr True
   \<and> has_timeout (attrs demo_ended)"
  using demo_step demo_step_timeout by blast

text \<open>
  C4, amended: for every call of \<^verbatim>\<open>step\<close> that returns, the flag returned is
  \<^verbatim>\<open>has_won or has_lost or has_timeout\<close> of the snapshot returned, and \<^verbatim>\<open>has_timeout\<close>
  is true exactly when the process is found not running by the look that \<^verbatim>\<open>step\<close> takes
  after the output of the command has been received, whether or not a banner was seen.
\<close>

theorem C4_done_flag:
  "step T env command = (Inr (gs, sc, ended), env') \<longrightarrow>
     (\<exists>won lost. has_won gs = Inr (won, gs) \<and> has_lost gs = Inr (lost, gs)
        \<and> ended = (won \<or> lost \<or> has_timeout (attrs gs)))
     \<and> (\<exists>env1 output env2.
          game_running T env = (True, env1)
          \<and> send T env1 (strip command) = (Some output, env2)
          \<and> has_timeout (attrs gs) = (\<not> fst (game_running T env2)))"
proof
  assume a: "step T env command = (Inr (gs, sc, ended), env')"
  obtain r0 env1 where g0: "game_running T env = (r0, env1)" by (cases "game_running T env")
  with a have r0: "r0" by (auto simp: step_def split: if_splits)
  obtain out env2 where sd: "send T env1 (strip command) = (out, env2)"
    by (cases "send T env1 (strip command)")
  with a g0 r0 obtain reply where out: "out = Some reply"
    by (cases out) (auto simp: step_def Let_def)
  obtain r1 env3 where g1: "game_running T env2 = (r1, env3)" by (cases "game_running T env2")
  from a g0 r0 sd out g1 obtain old gs1 gs3 where
    u: "update old (strip command) reply = Inr gs1" and
    sc: "score (assign (\<lambda>a. a\<lparr>has_timeout := \<not> r1\<rparr>) gs1) = Inr (sc, gs3)" and
    ge: "game_ended gs3 = Inr (ended, gs)"
    by (auto simp: step_def Let_def split: option.splits sum.splits prod.splits)
  have "gs3 = assign (\<lambda>a. a\<lparr>attr_score := Some sc\<rparr>) (assign (\<lambda>a. a\<lparr>has_timeout := \<not> r1\<rparr>) gs1)"
    by (rule score_frame [OF sc])
  then have t3: "has_timeout (attrs gs3) = (\<not> r1)" by (simp add: assign_def)
  from game_ended_result [OF ge] obtain won lost where
    h: "has_won gs = Inr (won, gs)" "has_lost gs = Inr (lost, gs)"
       "ended = (won \<or> lost \<or> has_timeout (attrs gs))"
       "has_timeout (attrs gs) = has_timeout (attrs gs3)"
    by blast
  from h(4) t3 g1 have "has_timeout (attrs gs) = (\<not> fst (game_running T env2))" by simp
  with g0 r0 sd out have "\<exists>env1 output env2.
          game_running T env = (True, env1)
          \<and> send T env1 (strip command) = (Some output, env2)
          \<and> has_timeout (attrs gs) = (\<not> fst (game_running T env2))"
    by auto
  with h(1,2,3) show "(\<exists>won lost. has_won gs = Inr (won, gs) \<and> has_lost gs = Inr (lost, gs)
        \<and> ended = (won \<or> lost \<or> has_timeout (attrs gs)))
     \<and> (\<exists>env1 output env2.
          game_running T env = (True, env1)
          \<and> send T env1 (strip command) = (Some output, env2)
          \<and> has_timeout (attrs gs) = (\<not> fst (game_running T env2)))"
    by blast
qed

theorem C4_done_flag_witness:
  "step demo_transport demo_env ''look''
     = (Inr (demo_ended, 0, True), snd (step demo_transport demo_env ''look''))
   \<and> has_won demo_ended = Inr (True, demo_ended)
   \<and> has_lost demo_ended = Inr (False, demo_ended)
   \<and> has_timeout (attrs demo_ended)
   \<and> fst (game_running demo_transport demo_env)
   \<and> fst (send demo_transport (snd (game_running demo_transport demo_env)) (strip ''look''))
       = Some ''*** The End ***''
   \<and> \<not> fst (game_running demo_transport
             (snd (send demo_transport (snd (game_running demo_transport demo_env))
                     (strip ''look''))))"
proof -
  have s: "step demo_transport demo_env ''look''
     = (Inr (demo_ended, 0, True), snd (step demo_transport demo_env ''look''))"
    using demo_step by (cases "step demo_transport demo_env ''look''") simp
  from C4_done_flag [rule_format, OF s] obtain won lost where
    h: "has_won demo_ended = Inr (won, demo_ended)" "has_lost demo_ended = Inr (lost, demo_ended)"
    by blast
  with demo_step_timeout(2,3) have "won" "\<not> lost" by (simp_all add: result_def)
  with h have wl: "has_won demo_ended = Inr (True, demo_ended)"
    "has_lost demo_ended = Inr (False, demo_ended)" by simp_all
  have t: "fst (game_running demo_transport demo_env)"
    "fst (send demo_transport (snd (game_running demo_transport demo_env)) (strip ''look''))
       = Some ''*** The End ***''"
    "\<not> fst (game_running demo_transport
             (snd (send demo_transport (snd (game_running demo_transport demo_env))
                     (strip ''look''))))"
    by (simp_all add: demo_step_simps)
  from s wl demo_step_timeout(1) t show ?thesis by blast
qed

text \<open>
  C7: \<^verbatim>\<open>step\<close> raises \<open>GameNotRunningError\<close>, and so returns no snapshot, whenever the
  process is not running when \<^verbatim>\<open>step\<close> looks, and whenever \<^verbatim>\<open>_send\<close> returns
  \<^verbatim>\<open>None\<close>, which it does when the process is not running when \<^verbatim>\<open>_send\<close> looks and
  when the library hands back \<^verbatim>\<open>NULL\<close>; the command handed to the library is a single
  space when the command is empty, so that sending the empty command is sending a space.
  A second call after the interpreter has exited is a call at which the process is not
  running.
\<close>

theorem C7_not_running:
  "(\<not> fst (game_running T env) \<longrightarrow> fst (step T env command) = Inl GameNotRunningError)
   \<and> (fst (send T (snd (game_running T env)) (strip command)) = None \<longrightarrow>
        fst (step T env command) = Inl GameNotRunningError)
   \<and> (\<not> fst (game_running T env) \<longrightarrow> fst (send T env command) = None)
   \<and> (fst (game_running T env)
        \<and> fst (communicate T (world (snd (game_running T env)))
                 (if command = [] then '' '' else command)) = None
        \<longrightarrow> fst (send T env command) = None)
   \<and> send T env [] = send T env '' ''"
proof (intro conjI impI)
  assume "\<not> fst (game_running T env)"
  then show "fst (step T env command) = Inl GameNotRunningError"
    by (cases "game_running T env") (simp add: step_def)
next
  assume a: "fst (send T (snd (game_running T env)) (strip command)) = None"
  obtain r0 env1 where g0: "game_running T env = (r0, env1)" by (cases "game_running T env")
  obtain out env2 where sd: "send T env1 (strip command) = (out, env2)"
    by (cases "send T env1 (strip command)")
  from a g0 sd have "out = None" by simp
  with g0 sd show "fst (step T env command) = Inl GameNotRunningError"
    by (simp add: step_def Let_def)
next
  assume "\<not> fst (game_running T env)"
  then show "fst (send T env command) = None"
    by (cases "game_running T env") (simp add: send_def)
next
  assume a: "fst (game_running T env)
        \<and> fst (communicate T (world (snd (game_running T env)))
                 (if command = [] then '' '' else command)) = None"
  obtain r0 env1 where g0: "game_running T env = (r0, env1)" by (cases "game_running T env")
  obtain res w where c: "communicate T (world env1) (if command = [] then '' '' else command) = (res, w)"
    by (cases "communicate T (world env1) (if command = [] then '' '' else command)")
  from a g0 c have "r0" "res = None" by simp_all
  with g0 c show "fst (send T env command) = None"
    by (simp add: send_def Let_def)
next
  show "send T env [] = send T env '' ''"
    by (simp add: send_def Let_def)
qed

text \<open>
  An instance: the interpreter answers once and exits; the first \<^verbatim>\<open>step\<close> returns a
  snapshot and the second raises.
\<close>

theorem C7_not_running_witness:
  "fst (game_running demo_transport demo_env)
   \<and> fst (step demo_transport demo_env ''look'') = Inr (demo_ended, 0, True)
   \<and> \<not> fst (game_running demo_transport (snd (step demo_transport demo_env ''look'')))
   \<and> fst (step demo_transport (snd (step demo_transport demo_env ''look'')) ''look'')
       = Inl GameNotRunningError
   \<and> fst (send demo_transport (snd (step demo_transport demo_env ''look'')) ''look'') = None"
proof -
  note c7 = C7_not_running [of demo_transport "snd (step demo_transport demo_env ''look'')" "''look''"]
  from c7 [THEN conjunct1, rule_format, OF demo_step_after(2)]
  have a: "fst (step demo_transport (snd (step demo_transport demo_env ''look'')) ''look'')
       = Inl GameNotRunningError" .
  from c7 [THEN conjunct2, THEN conjunct2, THEN conjunct1, rule_format, OF demo_step_after(2)]
  have b: "fst (send demo_transport (snd (step demo_transport demo_env ''look'')) ''look'') = None" .
  from demo_step_after demo_step a b show ?thesis by blast
qed

end
